theory Spec2Isabelle
  imports Main "HOL-Library.Char_ord" "HOL-Library.List_Lexorder"
begin

section \<open>Strings\<close>

text \<open>
  A Python \<open>str\<close> is modelled as a \<open>string\<close> whose characters are the code points
  0 to 255. On that range \<open>str.isspace\<close> and the regular-expression class \<open>\s\<close> accept the
  same twelve code points, and case-insensitive matching of an ASCII pattern letter accepts
  exactly its two ASCII cases.
\<close>

definition isspace :: "char \<Rightarrow> bool" where
  "isspace c \<longleftrightarrow>
     c \<in> set [CHR 0x09, CHR 0x0A, CHR 0x0B, CHR 0x0C, CHR 0x0D, CHR 0x1C, CHR 0x1D, CHR 0x1E,
              CHR 0x1F, CHR 0x20, CHR 0x85, CHR 0xA0]"

definition lower :: "char \<Rightarrow> char" where
  "lower c =
     (case map_of (zip ''ABCDEFGHIJKLMNOPQRSTUVWXYZ'' ''abcdefghijklmnopqrstuvwxyz'') c of
        Some l \<Rightarrow> l
      | None \<Rightarrow> c)"

text \<open>\<open>str.strip()\<close>: leading and trailing whitespace removed.\<close>

definition lstrip :: "string \<Rightarrow> string" where
  "lstrip s = dropWhile isspace s"

definition rstrip :: "string \<Rightarrow> string" where
  "rstrip s = rev (dropWhile isspace (rev s))"

definition strip :: "string \<Rightarrow> string" where
  "strip s = rstrip (lstrip s)"

section \<open>Regular expressions\<close>

text \<open>
  The fragment of Python's \<open>re\<close> syntax that the program uses: a literal compared without
  regard to case (\<open>re.IGNORECASE\<close>), a character set \<open>[...]\<close>, the greedy repetitions
  \<open>\s*\<close>, \<open>\s+\<close> and \<open>\s{2,}\<close> (\<open>Spaces n\<close>: at least \<open>n\<close> whitespace characters),
  concatenation and alternation.
\<close>

datatype regex =
    Lit string
  | Set string
  | Spaces nat
  | Seq regex regex
  | Alt regex regex

text \<open>
  \<open>rmatch r s\<close> lists, in the order a backtracking matcher tries them, the remainders of
  \<open>s\<close> after each way \<open>r\<close> can match a prefix of \<open>s\<close>: a greedy repetition offers the longest
  run first, an alternation its left branch first. The match the engine reports is the head.
\<close>

fun rmatch :: "regex \<Rightarrow> string \<Rightarrow> string list" where
  "rmatch (Lit p) s =
     (if length p \<le> length s \<and> map lower (take (length p) s) = map lower p
      then [drop (length p) s] else [])"
| "rmatch (Set cs) s =
     (case s of [] \<Rightarrow> [] | c # t \<Rightarrow> if c \<in> set cs then [t] else [])"
| "rmatch (Spaces n) s =
     map (\<lambda>j. drop j s) (rev [n ..< Suc (length (takeWhile isspace s))])"
| "rmatch (Seq a b) s = concat (map (rmatch b) (rmatch a s))"
| "rmatch (Alt a b) s = rmatch a s @ rmatch b s"

text \<open>
  \<open>re.sub(r, repl, s)\<close> with a constant replacement: scan from the left, replace the
  leftmost match, continue after it. A match of the empty string is replaced and the scan
  moves one character on.
\<close>

fun re_sub :: "regex \<Rightarrow> string \<Rightarrow> string \<Rightarrow> string" where
  "re_sub r repl [] = (case rmatch r [] of [] \<Rightarrow> [] | _ # _ \<Rightarrow> repl)"
| "re_sub r repl (c # cs) =
     (case rmatch r (c # cs) of
        [] \<Rightarrow> c # re_sub r repl cs
      | rest # _ \<Rightarrow>
          if length rest < length (c # cs) then repl @ re_sub r repl rest
          else repl @ c # re_sub r repl cs)"

text \<open>\<open>re_search r s\<close>: the pattern matches somewhere in \<open>s\<close>.\<close>

fun re_search :: "regex \<Rightarrow> string \<Rightarrow> bool" where
  "re_search r [] = (rmatch r [] \<noteq> [])"
| "re_search r (c # cs) = (rmatch r (c # cs) \<noteq> [] \<or> re_search r cs)"

section \<open>Title cleaning (metadata.py)\<close>

definition official_kinds :: regex where
  "official_kinds =
     Alt (Lit ''Video'')
      (Alt (Lit ''Audio'')
        (Alt (Seq (Lit ''Music'') (Seq (Spaces 1) (Lit ''Video'')))
          (Alt (Seq (Lit ''Lyric'') (Seq (Spaces 1) (Lit ''Video'')))
               (Lit ''Visualizer''))))"

definition noise_phrase :: regex where
  "noise_phrase =
     Alt (Seq (Lit ''Official'') (Seq (Spaces 1) official_kinds))
      (Alt (Seq (Lit ''Lyric'') (Seq (Spaces 1) (Lit ''Video'')))
        (Alt (Seq (Lit ''Audio'') (Seq (Spaces 1) (Lit ''Only'')))
          (Alt (Lit ''Audio'')
            (Alt (Lit ''HQ'')
              (Alt (Lit ''HD'')
                   (Lit ''4K''))))))"

definition TITLE_NOISE :: regex where
  "TITLE_NOISE =
     Seq (Spaces 0)
      (Seq (Set ''(['')
        (Seq (Spaces 0)
          (Seq noise_phrase
            (Seq (Spaces 0)
                 (Set '')]'')))))"

text \<open>The local variable \<open>cleaned\<close> of \<open>clean_title\<close>, after both substitutions and the trim.\<close>

definition cleaned :: "string \<Rightarrow> string" where
  "cleaned title = strip (re_sub (Spaces 2) '' '' (re_sub TITLE_NOISE [] title))"

definition clean_title :: "string \<Rightarrow> string" where
  "clean_title title = (if cleaned title = [] then title else cleaned title)"

section \<open>File-name sanitising (__main__.py)\<close>

text \<open>The character class \<open>[<>:"/\\|?*]\<close> of the first substitution.\<close>

definition illegal_chars :: string where
  "illegal_chars =
     [CHR ''<'', CHR ''>'', CHR '':'', CHR 0x22, CHR ''/'', CHR 0x5C, CHR ''|'', CHR ''?'',
      CHR ''*'']"

text \<open>The variable \<open>name\<close> of \<open>sanitize_filename\<close> after its two substitutions and the trim,
  before the slice \<open>name[:200]\<close>.\<close>

definition squeezed :: "string \<Rightarrow> string" where
  "squeezed name = strip (re_sub (Spaces 1) '' '' (re_sub (Set illegal_chars) [] name))"

definition sanitize_filename :: "string \<Rightarrow> string" where
  "sanitize_filename name = take 200 (squeezed name)"

section \<open>Track metadata (metadata.py)\<close>

text \<open>
  The values of the fields that the program reads from a parsed \<open>info.json\<close>: absent keys are
  absent from the map, and a present key holds \<open>null\<close>, an integer or a string. An \<open>info\<close> is
  the parsed dictionary.
\<close>

datatype jval = JNull | JNum int | JStr string

type_synonym info = "string \<rightharpoonup> jval"

text \<open>Python truth value: \<open>None\<close>, \<open>0\<close> and \<open>""\<close> are false.\<close>

fun truthy :: "jval \<Rightarrow> bool" where
  "truthy JNull = False"
| "truthy (JNum n) = (n \<noteq> 0)"
| "truthy (JStr s) = (s \<noteq> [])"

text \<open>The loop of \<open>get_artist\<close> over its keys: the first value that is present and true.\<close>

fun first_truthy :: "info \<Rightarrow> string list \<Rightarrow> jval option" where
  "first_truthy info [] = None"
| "first_truthy info (key # keys) =
     (case info key of
        Some val \<Rightarrow> if truthy val then Some val else first_truthy info keys
      | None \<Rightarrow> first_truthy info keys)"

definition get_artist :: "info \<Rightarrow> jval" where
  "get_artist info =
     (case first_truthy info [''artist'', ''creator'', ''uploader'', ''channel''] of
        Some val \<Rightarrow> val
      | None \<Rightarrow> JStr ''Unknown Artist'')"

text \<open>The Python set \<open>artists\<close> is kept as a list without duplicates: \<open>set.add\<close> is
  \<open>List.insert\<close>.\<close>

definition determine_album_artist :: "info list \<Rightarrow> jval" where
  "determine_album_artist infos =
     (let artists = fold (\<lambda>info acc. List.insert (get_artist info) acc) infos []
      in if length artists = 1 then hd artists else JStr ''Various Artists'')"

text \<open>\<open>x or y\<close> for an optional string \<open>x\<close>: \<open>None\<close> and \<open>""\<close> give \<open>y\<close>.\<close>

definition or_else :: "string option \<Rightarrow> string \<Rightarrow> string" where
  "or_else x y = (case x of Some a \<Rightarrow> if a \<noteq> [] then a else y | None \<Rightarrow> y)"

definition override_or :: "string option \<Rightarrow> jval \<Rightarrow> jval" where
  "override_or x y = (case x of Some a \<Rightarrow> if a \<noteq> [] then JStr a else y | None \<Rightarrow> y)"

section \<open>Errors, numbers as text, paths\<close>

text \<open>
  The exceptions that end a run: \<open>SystemExit n\<close> is \<open>sys.exit(n)\<close>; \<open>TypeError\<close> is what \<open>re.sub\<close>
  and \<open>len\<close> raise on a value that is not a string; \<open>OSError\<close> is what a file operation
  raises when the file system refuses it (a file that is not there or not of the expected
  kind, a name that is too long, a file where a directory is needed), \<open>shutil.Error\<close> being
  one of its subclasses; \<open>ValueError\<close> is what a file operation raises on a path with the
  character U+0000, and what \<open>urlsplit\<close> raises on a malformed network location.
\<close>

datatype error = SystemExit nat | TypeError | OSError | ValueError

definition digit_char :: "nat \<Rightarrow> char" where
  "digit_char d = ''0123456789'' ! d"

text \<open>\<open>str(n)\<close> for a natural number.\<close>

fun str_nat :: "nat \<Rightarrow> string" where
  "str_nat n = (if n < 10 then [digit_char n] else str_nat (n div 10) @ [digit_char (n mod 10)])"

declare str_nat.simps [simp del]

text \<open>The format \<open>{i:02d}\<close>: decimal, padded with zeros on the left to at least two digits.\<close>

definition fmt_02d :: "nat \<Rightarrow> string" where
  "fmt_02d i = replicate (2 - length (str_nat i)) CHR ''0'' @ str_nat i"

text \<open>
  A path is the list of its components. \<open>joinpath p seg\<close> is \<open>p / seg\<close> for a segment without
  a slash: pathlib drops an empty segment and the segment \<open>.\<close>.
\<close>

type_synonym path = "string list"

definition joinpath :: "path \<Rightarrow> string \<Rightarrow> path" where
  "joinpath p seg = (if seg = [] \<or> seg = ''.'' then p else p @ [seg])"

definition path_name :: "path \<Rightarrow> string" where
  "path_name p = (if p = [] then [] else last p)"

text \<open>The index \<open>i\<close> of the last dot of a name when \<open>0 < i < len(name) - 1\<close>, as pathlib's
  \<open>suffix\<close> and \<open>stem\<close> compute it.\<close>

definition suffix_start :: "string \<Rightarrow> nat option" where
  "suffix_start name =
     (let j = length (takeWhile (\<lambda>c. c \<noteq> CHR ''.'') (rev name))
      in if j < length name \<and> 0 < j \<and> 0 < length name - 1 - j
         then Some (length name - 1 - j) else None)"

definition path_suffix :: "path \<Rightarrow> string" where
  "path_suffix p =
     (case suffix_start (path_name p) of Some i \<Rightarrow> drop i (path_name p) | None \<Rightarrow> [])"

definition path_stem :: "path \<Rightarrow> string" where
  "path_stem p =
     (case suffix_start (path_name p) of Some i \<Rightarrow> take i (path_name p) | None \<Rightarrow> path_name p)"

definition endswith :: "string \<Rightarrow> string \<Rightarrow> bool" where
  "endswith s suf \<longleftrightarrow> length suf \<le> length s \<and> drop (length s - length suf) s = suf"

definition removesuffix :: "string \<Rightarrow> string \<Rightarrow> string" where
  "removesuffix s suf =
     (if suf \<noteq> [] \<and> endswith s suf then take (length s - length suf) s else s)"

section \<open>The download result (downloader.py)\<close>

record PlaylistInfo =
  title :: string
  url :: string
  entries :: "info list"
  uploader :: "string option"

record DownloadResult =
  playlist_info :: PlaylistInfo
  downloaded_files :: "path list"
  info_json_files :: "path list"
  errors :: "string list"

text \<open>
  What the call \<open>ydl.download([url])\<close> leaves behind: the names of the entries of the staging
  directory, and the messages of the playlist entries that could not be fetched (with
  \<open>ignoreerrors\<close> the downloader reports such an entry and goes on to the next).
\<close>

record ydl_run =
  staged :: "string list"
  failures :: "string list"

text \<open>The body of the loop over \<open>sorted(temp_dir.iterdir())\<close>.\<close>

definition collect :: "DownloadResult \<Rightarrow> path \<Rightarrow> DownloadResult" where
  "collect result p =
     (if path_suffix p = ''.opus''
      then result\<lparr>downloaded_files := downloaded_files result @ [p]\<rparr>
      else if path_suffix p = ''.json'' \<and> endswith (path_stem p) ''.info''
      then result\<lparr>info_json_files := info_json_files result @ [p]\<rparr>
      else result)"

text \<open>
  \<open>download_playlist\<close> after the two calls to the downloader: \<open>pinfo\<close> is what
  \<open>extract_playlist_info\<close> returned, \<open>run\<close> what the download left behind.
\<close>

definition download_playlist :: "PlaylistInfo \<Rightarrow> path \<Rightarrow> ydl_run \<Rightarrow> DownloadResult" where
  "download_playlist pinfo temp_dir run =
     foldl collect
       \<lparr>playlist_info = pinfo, downloaded_files = [], info_json_files = [], errors = []\<rparr>
       (sort (map (\<lambda>n. temp_dir @ [n]) (staged run)))"

section \<open>Files and the download log (__main__.py)\<close>

text \<open>
  The two dictionaries of the log. The keys \<open>title\<close> and \<open>artist\<close> of a track entry and the
  key \<open>errors\<close> of the log are the fields \<open>entry_title\<close>, \<open>entry_artist\<close> and \<open>log_errors\<close>.
\<close>

record log_entry =
  track_number :: nat
  video_id :: jval
  entry_title :: string
  entry_artist :: jval
  filename :: string
  duration :: "jval option"

record download_log =
  playlist_url :: string
  playlist_title :: string
  album :: string
  album_artist :: jval
  download_date :: string
  tracks :: "log_entry list"
  log_errors :: "string list"

text \<open>
  The file system as the program sees it: the directories that exist and the files, each an
  audio file with its tags, a metadata sidecar with its parsed content, or a written log.
\<close>

datatype file_content = Audio "string \<rightharpoonup> jval list" | InfoJson info | LogFile download_log

record fs =
  dirs :: "path set"
  files :: "path \<rightharpoonup> file_content"

definition load_info_json :: "fs \<Rightarrow> path \<Rightarrow> error + info" where
  "load_info_json s p = (case files s p of Some (InfoJson i) \<Rightarrow> Inr i | _ \<Rightarrow> Inl OSError)"

text \<open>\<open>info.get("title", opus_file.stem)\<close>.\<close>

definition title_field :: "info \<Rightarrow> path \<Rightarrow> jval" where
  "title_field info opus_file =
     (case info ''title'' of Some v \<Rightarrow> v | None \<Rightarrow> JStr (path_stem opus_file))"

text \<open>
  \<open>embed_metadata\<close>: the tags are set on the opened file and written by \<open>save\<close>, so nothing
  changes when an exception is raised before.
\<close>

definition embed_metadata ::
  "path \<Rightarrow> info \<Rightarrow> string \<Rightarrow> nat \<Rightarrow> nat \<Rightarrow> jval \<Rightarrow> string option \<Rightarrow> string option \<Rightarrow> fs
     \<Rightarrow> error + fs" where
  "embed_metadata opus_file info album_arg track_no total_tracks album_artist_arg
       artist_override album_override s =
     (case files s opus_file of
        Some (Audio audio0) \<Rightarrow>
          (case title_field info opus_file of
             JStr t \<Rightarrow>
               (let audio = audio0
                      (''title'' \<mapsto> [JStr (clean_title t)],
                       ''artist'' \<mapsto> [override_or artist_override (get_artist info)],
                       ''album'' \<mapsto> [JStr (or_else album_override album_arg)],
                       ''albumartist'' \<mapsto> [album_artist_arg],
                       ''tracknumber'' \<mapsto> [JStr (str_nat track_no)],
                       ''tracktotal'' \<mapsto> [JStr (str_nat total_tracks)]);
                    save = (\<lambda>a. s\<lparr>files := (files s)(opus_file \<mapsto> Audio a)\<rparr>)
                in case (case info ''upload_date'' of Some v \<Rightarrow> v | None \<Rightarrow> JStr []) of
                     JStr d \<Rightarrow>
                       Inr (save (if d \<noteq> [] \<and> 4 \<le> length d
                                  then audio(''date'' \<mapsto> [JStr (take 4 d)]) else audio))
                   | JNull \<Rightarrow> Inr (save audio)
                   | JNum n \<Rightarrow> if n = 0 then Inr (save audio) else Inl TypeError)
           | _ \<Rightarrow> Inl TypeError)
      | _ \<Rightarrow> Inl OSError)"

text \<open>
  What the file system accepts as a name, as the usual file systems of Linux do: at most 255
  bytes in UTF-8 (a character below U+0080 is one byte, the others of the strings modelled
  here, up to U+00FF, are two), and no character U+0000.
\<close>

definition utf8_len :: "string \<Rightarrow> nat" where
  "utf8_len name = sum_list (map (\<lambda>c. if of_char c < (128 :: nat) then 1 else 2) name)"

definition name_too_long :: "string \<Rightarrow> bool" where
  "name_too_long name \<longleftrightarrow> 255 < utf8_len name"

definition has_nul :: "string \<Rightarrow> bool" where
  "has_nul name \<longleftrightarrow> CHR 0x00 \<in> set name"

definition is_file :: "fs \<Rightarrow> path \<Rightarrow> bool" where
  "is_file s p = (case files s p of Some f \<Rightarrow> True | None \<Rightarrow> False)"

text \<open>The directory that has to exist for an entry to be made at a path; a path of one
  component lies in the root or in the working directory.\<close>

definition parent_exists :: "fs \<Rightarrow> path \<Rightarrow> bool" where
  "parent_exists s p \<longleftrightarrow> butlast p = [] \<or> butlast p \<in> dirs s"

text \<open>
  \<open>os.rename\<close> of a file, to a path that names no directory: the path is refused with
  \<open>ValueError\<close> when it has the character U+0000, before the file system is asked; the file
  system refuses a source that is not there, a name of more than 255 bytes, and a destination
  in no existing directory; a file already at the destination is replaced. (The source is an
  existing file, so its own path is one the file system accepts.)
\<close>

definition os_rename :: "path \<Rightarrow> path \<Rightarrow> fs \<Rightarrow> error + fs" where
  "os_rename src dst s =
     (if \<exists>c\<in>set dst. has_nul c then Inl ValueError
      else case files s src of
             None \<Rightarrow> Inl OSError
           | Some f \<Rightarrow>
               if name_too_long (path_name dst) \<or> \<not> parent_exists s dst then Inl OSError
               else Inr (s\<lparr>files := (files s)(src := None, dst \<mapsto> f)\<rparr>))"

text \<open>
  \<open>shutil.move\<close> of a file: into the directory \<open>dst\<close>, under the name of the source, when
  \<open>dst\<close> is an existing directory (\<open>shutil.Error\<close> when that name is taken there), else to the
  path \<open>dst\<close>. When \<open>os.rename\<close> fails with \<open>OSError\<close> the function tries to copy the file, which
  the file system refuses for the same reasons.
\<close>

definition shutil_move :: "path \<Rightarrow> path \<Rightarrow> fs \<Rightarrow> error + fs" where
  "shutil_move src dst s =
     (if dst \<in> dirs s
      then (let real_dst = dst @ [path_name src]
            in if real_dst \<in> dirs s \<or> is_file s real_dst then Inl OSError
               else os_rename src real_dst s)
      else os_rename src dst s)"

text \<open>The path and the paths above it, outermost first.\<close>

definition path_prefixes :: "path \<Rightarrow> path list" where
  "path_prefixes p = map (\<lambda>k. take k p) [1 ..< Suc (length p)]"

text \<open>
  \<open>mkdir(parents=True, exist_ok=True)\<close>: the missing directories are made from the outermost
  on; a directory that exists is left as it is; a regular file in the way or a name of more
  than 255 bytes raises \<open>OSError\<close>, and the directories made until then stay. A path with the
  character U+0000 is refused with \<open>ValueError\<close> before the file system is asked. The result
  is the exception raised, if any, and the file system afterwards.
\<close>

fun make_dirs :: "path list \<Rightarrow> fs \<Rightarrow> error option \<times> fs" where
  "make_dirs [] s = (None, s)"
| "make_dirs (p # ps) s =
     (if p \<in> dirs s then make_dirs ps s
      else if is_file s p \<or> name_too_long (path_name p) then (Some OSError, s)
      else make_dirs ps (s\<lparr>dirs := insert p (dirs s)\<rparr>))"

definition mkdir_parents :: "path \<Rightarrow> fs \<Rightarrow> error option \<times> fs" where
  "mkdir_parents p s =
     (if \<exists>c\<in>set p. has_nul c then (Some ValueError, s) else make_dirs (path_prefixes p) s)"

text \<open>\<open>open(log_path, "w")\<close> and \<open>json.dump\<close>: a file at the path is replaced; a directory
  at the path, or no directory to hold it, raises \<open>OSError\<close>.\<close>

definition write_log :: "path \<Rightarrow> download_log \<Rightarrow> fs \<Rightarrow> error + fs" where
  "write_log p log s =
     (if p \<in> dirs s \<or> \<not> parent_exists s p then Inl OSError
      else Inr (s\<lparr>files := (files s)(p \<mapsto> LogFile log)\<rparr>))"

text \<open>The first loop of \<open>move_and_tag\<close>: the sidecars, keyed by their name without
  \<open>.info.json\<close>.\<close>

fun load_infos :: "fs \<Rightarrow> path list \<Rightarrow> (string \<rightharpoonup> info) \<Rightarrow> error + (string \<rightharpoonup> info)" where
  "load_infos s [] info_map = Inr info_map"
| "load_infos s (info_path # rest) info_map =
     (case load_info_json s info_path of
        Inl e \<Rightarrow> Inl e
      | Inr i \<Rightarrow>
          load_infos s rest (info_map(removesuffix (path_name info_path) ''.info.json'' \<mapsto> i)))"

text \<open>The second loop: each audio file with the sidecar of its stem, or with the empty
  dictionary.\<close>

definition pair_up :: "(string \<rightharpoonup> info) \<Rightarrow> path list \<Rightarrow> (path \<times> info) list" where
  "pair_up info_map opus_files =
     map (\<lambda>opus_file.
            (opus_file,
             case info_map (path_stem opus_file) of Some i \<Rightarrow> i | None \<Rightarrow> Map.empty))
         opus_files"

text \<open>The name \<open>f"{i:02d} - {safe_title}.opus"\<close>.\<close>

definition dest_name :: "nat \<Rightarrow> string \<Rightarrow> string" where
  "dest_name i t = fmt_02d i @ '' - '' @ sanitize_filename (clean_title t) @ ''.opus''"

text \<open>The dictionary appended to \<open>log_entries\<close> for track \<open>i\<close> with raw title \<open>t\<close>.\<close>

definition make_entry :: "nat \<Rightarrow> string \<Rightarrow> info \<Rightarrow> string option \<Rightarrow> log_entry" where
  "make_entry i t info artist_override =
     \<lparr>track_number = i,
      video_id = (case info ''id'' of Some v \<Rightarrow> v | None \<Rightarrow> JStr []),
      entry_title = clean_title t,
      entry_artist = override_or artist_override (get_artist info),
      filename = dest_name i t,
      duration = info ''duration''\<rparr>"

text \<open>
  The third loop, \<open>for i, (opus_file, info) in enumerate(pairs, 1)\<close>, from index \<open>i\<close> on. It
  returns the log entries of the tracks it handled, or the exception that stopped it, and the
  file system as it left it.
\<close>

fun tag_and_move ::
  "nat \<Rightarrow> nat \<Rightarrow> (path \<times> info) list \<Rightarrow> string \<Rightarrow> jval \<Rightarrow> string option \<Rightarrow> path \<Rightarrow> fs
     \<Rightarrow> (error + log_entry list) \<times> fs" where
  "tag_and_move i n_tracks [] album_name album_artist_v artist_override album_dir s = (Inr [], s)"
| "tag_and_move i n_tracks ((opus_file, info) # rest) album_name album_artist_v artist_override
       album_dir s =
     (case embed_metadata opus_file info album_name i n_tracks album_artist_v artist_override
             None s of
        Inl e \<Rightarrow> (Inl e, s)
      | Inr s1 \<Rightarrow>
          (case title_field info opus_file of
             JStr t \<Rightarrow>
               (case shutil_move opus_file (joinpath album_dir (dest_name i t)) s1 of
                  Inl e \<Rightarrow> (Inl e, s1)
                | Inr s2 \<Rightarrow>
                    (case tag_and_move (Suc i) n_tracks rest album_name album_artist_v
                            artist_override album_dir s2 of
                       (Inl e, s3) \<Rightarrow> (Inl e, s3)
                     | (Inr log_entries, s3) \<Rightarrow>
                         (Inr (make_entry i t info artist_override # log_entries), s3)))
           | _ \<Rightarrow> (Inl TypeError, s1)))"

text \<open>
  \<open>move_and_tag\<close>; \<open>now\<close> is the time stamp \<open>datetime.now(timezone.utc).isoformat()\<close>. The
  result is the album directory or the exception raised, and the file system afterwards.
\<close>

definition move_and_tag ::
  "DownloadResult \<Rightarrow> path \<Rightarrow> string option \<Rightarrow> string option \<Rightarrow> string \<Rightarrow> fs
     \<Rightarrow> (error + path) \<times> fs" where
  "move_and_tag result output_dir album_override artist_override now s =
     (case load_infos s (info_json_files result) Map.empty of
        Inl e \<Rightarrow> (Inl e, s)
      | Inr info_map \<Rightarrow>
          (case pair_up info_map (downloaded_files result) of
             [] \<Rightarrow> (Inl (SystemExit 1), s)
           | pair # others \<Rightarrow>
               (let pairs = pair # others;
                    all_infos = map snd pairs;
                    album_name = or_else album_override (title (playlist_info result))
                in case override_or artist_override (determine_album_artist all_infos) of
                     JStr a \<Rightarrow>
                       (let album_dir =
                              joinpath (joinpath output_dir (sanitize_filename a))
                                (sanitize_filename album_name)
                        in case mkdir_parents album_dir s of
                             (Some e, s1) \<Rightarrow> (Inl e, s1)
                           | (None, s1) \<Rightarrow>
                               (case tag_and_move 1 (length pairs) pairs album_name (JStr a)
                                       artist_override album_dir s1 of
                                  (Inl e, s2) \<Rightarrow> (Inl e, s2)
                                | (Inr log_entries, s2) \<Rightarrow>
                                    (case write_log (joinpath album_dir ''download_log.json'')
                                            \<lparr>playlist_url = url (playlist_info result),
                                             playlist_title = title (playlist_info result),
                                             album = album_name,
                                             album_artist = JStr a,
                                             download_date = now,
                                             tracks = log_entries,
                                             log_errors = errors result\<rparr> s2 of
                                       Inl e \<Rightarrow> (Inl e, s2)
                                     | Inr s3 \<Rightarrow> (Inr album_dir, s3))))
                   | _ \<Rightarrow> (Inl TypeError, s))))"

text \<open>
  \<open>main\<close> from the return of \<open>download_playlist\<close> to the return of \<open>move_and_tag\<close>; the
  arguments are the parsed command line.
\<close>

definition main ::
  "DownloadResult \<Rightarrow> path \<Rightarrow> string option \<Rightarrow> string option \<Rightarrow> string \<Rightarrow> fs
     \<Rightarrow> (error + path) \<times> fs" where
  "main result output_dir album_name artist_name now s =
     (if downloaded_files result = [] then (Inl (SystemExit 1), s)
      else move_and_tag result output_dir album_name artist_name now s)"

text \<open>The log written at a path, if one was.\<close>

definition log_at :: "fs \<Rightarrow> path \<Rightarrow> download_log option" where
  "log_at s p = (case files s p of Some (LogFile l) \<Rightarrow> Some l | _ \<Rightarrow> None)"

section \<open>Playlist URL normalization (downloader.py)\<close>

text \<open>
  A URL is a Python \<open>str\<close> given by its code points, so that the result of decoding percent
  escapes has a place in the type. \<open>ascii\<close> writes a literal.
\<close>

type_synonym ustr = "nat list"

definition ascii :: "string \<Rightarrow> ustr" where
  "ascii s = map of_char s"

text \<open>
  The parts of \<open>urllib.parse\<close> that are taken as they are: whether \<open>_check_bracketed_host\<close>
  accepts the host between brackets of a network location, whether \<open>_checknetloc\<close> accepts a
  network location that is not ASCII, and what \<open>bytes.decode("utf-8", "replace")\<close> makes of a
  byte string that has a byte above \<open>0x7f\<close>.
\<close>

record stdlib =
  bracketed_host_ok :: "ustr \<Rightarrow> bool"
  nfkc_ok :: "ustr \<Rightarrow> bool"
  utf8_decode :: "nat list \<Rightarrow> ustr"

definition is_ascii_alpha :: "nat \<Rightarrow> bool" where
  "is_ascii_alpha c \<longleftrightarrow> (65 \<le> c \<and> c \<le> 90) \<or> (97 \<le> c \<and> c \<le> 122)"

text \<open>\<open>scheme_chars\<close>: the ASCII letters and digits and \<open>+-.\<close>.\<close>

definition scheme_char :: "nat \<Rightarrow> bool" where
  "scheme_char c \<longleftrightarrow> is_ascii_alpha c \<or> (48 \<le> c \<and> c \<le> 57) \<or> c = 43 \<or> c = 45 \<or> c = 46"

text \<open>The scheme is cut off when the text before the first colon is a scheme name.\<close>

definition drop_scheme :: "ustr \<Rightarrow> ustr" where
  "drop_scheme u =
     (let i = length (takeWhile (\<lambda>c. c \<noteq> 58) u)
      in if i < length u \<and> 0 < i \<and> is_ascii_alpha (hd u) \<and> list_all scheme_char (take i u)
         then drop (Suc i) u else u)"

text \<open>\<open>s.partition(c)[2]\<close> and \<open>s.partition(c)[0]\<close>.\<close>

definition after_first :: "nat \<Rightarrow> ustr \<Rightarrow> ustr" where
  "after_first c s = (case dropWhile (\<lambda>x. x \<noteq> c) s of [] \<Rightarrow> [] | _ # t \<Rightarrow> t)"

definition before_first :: "nat \<Rightarrow> ustr \<Rightarrow> ustr" where
  "before_first c s = takeWhile (\<lambda>x. x \<noteq> c) s"

text \<open>
  \<open>urlparse(url).query\<close>, which is the query of \<open>urlsplit\<close>: leading control characters and
  spaces are stripped, tab, carriage return and line feed are removed, the scheme and the
  network location are cut off, and the query is what stands between the first \<open>?\<close> and the
  first \<open>#\<close>. A network location with unbalanced brackets, or one the library's checks reject,
  raises \<open>ValueError\<close>.
\<close>

definition url_query :: "stdlib \<Rightarrow> ustr \<Rightarrow> error + ustr" where
  "url_query lib url0 =
     (let url1 = drop_scheme (filter (\<lambda>c. c \<noteq> 9 \<and> c \<noteq> 13 \<and> c \<noteq> 10)
                   (dropWhile (\<lambda>c. c \<le> 32) url0));
          has_netloc = (take 2 url1 = [47, 47]);
          netloc = (if has_netloc
                    then takeWhile (\<lambda>c. c \<noteq> 47 \<and> c \<noteq> 63 \<and> c \<noteq> 35) (drop 2 url1) else []);
          url2 = (if has_netloc
                  then dropWhile (\<lambda>c. c \<noteq> 47 \<and> c \<noteq> 63 \<and> c \<noteq> 35) (drop 2 url1) else url1);
          url3 = before_first 35 url2
      in if (91 \<in> set netloc \<and> 93 \<notin> set netloc) \<or> (93 \<in> set netloc \<and> 91 \<notin> set netloc)
         then Inl ValueError
         else if 91 \<in> set netloc \<and> 93 \<in> set netloc \<and>
                 \<not> bracketed_host_ok lib (before_first 93 (after_first 91 netloc))
         then Inl ValueError
         else if netloc \<noteq> [] \<and> \<not> list_all (\<lambda>c. c < 128) netloc \<and> \<not> nfkc_ok lib netloc
         then Inl ValueError
         else Inr (after_first 63 url3))"

text \<open>\<open>s.split(c)\<close>.\<close>

fun split_on :: "nat \<Rightarrow> ustr \<Rightarrow> ustr list" where
  "split_on c [] = [[]]"
| "split_on c (x # xs) =
     (if x = c then [] # split_on c xs
      else (case split_on c xs of [] \<Rightarrow> [[x]] | piece # pieces \<Rightarrow> (x # piece) # pieces))"

definition is_hex :: "nat \<Rightarrow> bool" where
  "is_hex c \<longleftrightarrow> (48 \<le> c \<and> c \<le> 57) \<or> (65 \<le> c \<and> c \<le> 70) \<or> (97 \<le> c \<and> c \<le> 102)"

definition hex_val :: "nat \<Rightarrow> nat" where
  "hex_val c = (if c \<le> 57 then c - 48 else if c \<le> 70 then c - 55 else c - 87)"

text \<open>\<open>unquote_to_bytes\<close> on ASCII text: \<open>%xx\<close> with two hexadecimal digits is one byte, any
  other \<open>%\<close> stays.\<close>

fun unquote_to_bytes :: "ustr \<Rightarrow> nat list" where
  "unquote_to_bytes [] = []"
| "unquote_to_bytes (c # cs) =
     (if c = 37
      then (case cs of
              h1 # h2 # rest \<Rightarrow>
                if is_hex h1 \<and> is_hex h2
                then (16 * hex_val h1 + hex_val h2) # unquote_to_bytes rest
                else 37 # unquote_to_bytes cs
            | _ \<Rightarrow> 37 # unquote_to_bytes cs)
      else c # unquote_to_bytes cs)"

text \<open>Decoding as UTF-8: bytes that are all ASCII are their own code points.\<close>

definition decode :: "stdlib \<Rightarrow> nat list \<Rightarrow> ustr" where
  "decode lib bs = (if list_all (\<lambda>b. b < 128) bs then bs else utf8_decode lib bs)"

text \<open>The loop of \<open>unquote\<close> over the runs of ASCII and of other characters: the ASCII runs
  are unquoted and decoded, the others are kept.\<close>

function unquote_runs :: "stdlib \<Rightarrow> ustr \<Rightarrow> ustr" where
  "unquote_runs lib s =
     (case s of
        [] \<Rightarrow> []
      | c # cs \<Rightarrow>
          if c < 128
          then decode lib (unquote_to_bytes (takeWhile (\<lambda>x. x < 128) s)) @
               unquote_runs lib (dropWhile (\<lambda>x. x < 128) cs)
          else takeWhile (\<lambda>x. \<not> x < 128) s @ unquote_runs lib (dropWhile (\<lambda>x. \<not> x < 128) cs))"
  by pat_completeness auto
termination
  by (relation "measure (\<lambda>(lib, s). length s)") (auto simp: length_dropWhile_le less_Suc_eq_le)

declare unquote_runs.simps [simp del]

definition unquote :: "stdlib \<Rightarrow> ustr \<Rightarrow> ustr" where
  "unquote lib s = (if 37 \<notin> set s then s else unquote_runs lib s)"

definition unquote_plus :: "stdlib \<Rightarrow> ustr \<Rightarrow> ustr" where
  "unquote_plus lib s = unquote lib (map (\<lambda>c. if c = 43 then 32 else c) s)"

text \<open>\<open>parse_qsl\<close> with its defaults: the fields between \<open>&\<close>, without the empty ones and
  those with an empty value.\<close>

definition parse_qsl :: "stdlib \<Rightarrow> ustr \<Rightarrow> (ustr \<times> ustr) list" where
  "parse_qsl lib qs =
     (if qs = [] then []
      else map (\<lambda>nv. (unquote_plus lib (before_first 61 nv), unquote_plus lib (after_first 61 nv)))
             (filter (\<lambda>nv. nv \<noteq> [] \<and> after_first 61 nv \<noteq> []) (split_on 38 qs)))"

text \<open>\<open>parse_qs(query).get("list", [None])[0]\<close>: the first value of the name \<open>list\<close>.\<close>

definition first_list_value :: "(ustr \<times> ustr) list \<Rightarrow> ustr option" where
  "first_list_value pairs = map_of pairs (ascii ''list'')"

text \<open>The variable \<open>list_id\<close> of \<open>normalize_playlist_url\<close>.\<close>

definition list_id :: "stdlib \<Rightarrow> ustr \<Rightarrow> error + ustr option" where
  "list_id lib u =
     (case url_query lib u of
        Inl e \<Rightarrow> Inl e
      | Inr query \<Rightarrow> Inr (first_list_value (parse_qsl lib query)))"

definition canonical :: "ustr \<Rightarrow> ustr" where
  "canonical i = ascii ''https://www.youtube.com/playlist?list='' @ i"

definition normalize_playlist_url :: "stdlib \<Rightarrow> ustr \<Rightarrow> error + ustr" where
  "normalize_playlist_url lib u =
     (case list_id lib u of
        Inl e \<Rightarrow> Inl e
      | Inr None \<Rightarrow> Inr u
      | Inr (Some i) \<Rightarrow> if i \<noteq> [] then Inr (canonical i) else Inr u)"

text \<open>The function applied to its own result.\<close>

definition normalize_twice :: "stdlib \<Rightarrow> ustr \<Rightarrow> error + ustr" where
  "normalize_twice lib u =
     (case normalize_playlist_url lib u of
        Inl e \<Rightarrow> Inl e
      | Inr v \<Rightarrow> normalize_playlist_url lib v)"

text \<open>A library whose checks accept everything and whose decoder keeps the bytes; it is
  consulted only for bracketed or non-ASCII hosts and for escapes above \<open>%7F\<close>.\<close>

definition lenient :: stdlib where
  "lenient = \<lparr>bracketed_host_ok = (\<lambda>h. True), nfkc_ok = (\<lambda>n. True), utf8_decode = (\<lambda>bs. bs)\<rparr>"

section \<open>Specification vocabulary\<close>

text \<open>No two adjacent characters of the string are both whitespace.\<close>

fun no_ws_pair :: "string \<Rightarrow> bool" where
  "no_ws_pair (a # b # t) = (\<not> (isspace a \<and> isspace b) \<and> no_ws_pair (b # t))"
| "no_ws_pair _ = True"

text \<open>The strings a pattern can match, read off its syntax: the declarative reading of
  \<open>rmatch\<close>.\<close>

fun lang :: "regex \<Rightarrow> string set" where
  "lang (Lit p) = {u. map lower u = map lower p}"
| "lang (Set cs) = {[c] | c. c \<in> set cs}"
| "lang (Spaces n) = {w. n \<le> length w \<and> (\<forall>c\<in>set w. isspace c)}"
| "lang (Seq a b) = {u @ v | u v. u \<in> lang a \<and> v \<in> lang b}"
| "lang (Alt a b) = lang a \<union> lang b"

text \<open>The closed vocabulary of upload-platform noise, as the specification lists it.\<close>

definition vocabulary :: "string list" where
  "vocabulary =
     [''Official Video'', ''Official Audio'', ''Official Music Video'', ''Official Lyric Video'',
      ''Official Visualizer'', ''Lyric Video'', ''Audio Only'', ''Audio'', ''HQ'', ''HD'', ''4K'']"

text \<open>\<open>same_phrase p c\<close>: the text \<open>c\<close> spells the phrase \<open>p\<close> up to letter case, each
  space of \<open>p\<close> standing for a non-empty run of whitespace in \<open>c\<close>.\<close>

fun same_phrase :: "string \<Rightarrow> string \<Rightarrow> bool" where
  "same_phrase [] c = (c = [])"
| "same_phrase (x # p) c =
     (if x = CHR '' '' then c \<noteq> [] \<and> isspace (hd c) \<and> same_phrase p (dropWhile isspace c)
      else (case c of [] \<Rightarrow> False | y # c' \<Rightarrow> lower y = lower x \<and> same_phrase p c'))"

definition noise_content :: "string \<Rightarrow> bool" where
  "noise_content c \<longleftrightarrow> (\<exists>p\<in>set vocabulary. same_phrase p c)"

text \<open>The content of an annotation is exactly a vocabulary phrase, up to letter case and
  surrounding whitespace only.\<close>

definition exact_content :: "string \<Rightarrow> bool" where
  "exact_content c \<longleftrightarrow> map lower (strip c) \<in> set (map (map lower) vocabulary)"

text \<open>A noise annotation with the whitespace before it: an opening delimiter, a vocabulary
  phrase with optional whitespace around it, a closing delimiter.\<close>

definition noise_annotation :: "string \<Rightarrow> bool" where
  "noise_annotation seg \<longleftrightarrow>
     (\<exists>ws1 ob ws2 c ws3 cb.
        seg = ws1 @ [ob] @ ws2 @ c @ ws3 @ [cb] \<and>
        (\<forall>x\<in>set ws1. isspace x) \<and> ob \<in> set ''(['' \<and>
        (\<forall>x\<in>set ws2. isspace x) \<and> noise_content c \<and>
        (\<forall>x\<in>set ws3. isspace x) \<and> cb \<in> set '')]'')"

text \<open>\<open>erases P s t\<close>: \<open>t\<close> is \<open>s\<close> with some disjoint segments deleted, each of them
  satisfying \<open>P\<close>.\<close>

inductive erases :: "(string \<Rightarrow> bool) \<Rightarrow> string \<Rightarrow> string \<Rightarrow> bool" for P where
  erases_Nil: "erases P [] []"
| erases_keep: "erases P s t \<Longrightarrow> erases P (c # s) (c # t)"
| erases_drop: "P seg \<Longrightarrow> erases P s t \<Longrightarrow> erases P (seg @ s) t"

text \<open>
  A sidecar whose fields have the types the program expects: the title, when present, is a
  string; the upload date and the four artist fields, when present, are a string, \<open>null\<close> or
  \<open>0\<close>.
\<close>

definition str_or_false :: "jval option \<Rightarrow> bool" where
  "str_or_false v = (case v of Some (JNum n) \<Rightarrow> n = 0 | _ \<Rightarrow> True)"

definition well_typed :: "info \<Rightarrow> bool" where
  "well_typed info \<longleftrightarrow>
     (case info ''title'' of None \<Rightarrow> True | Some (JStr t) \<Rightarrow> True | Some _ \<Rightarrow> False) \<and>
     str_or_false (info ''upload_date'') \<and> str_or_false (info ''artist'') \<and>
     str_or_false (info ''creator'') \<and> str_or_false (info ''uploader'') \<and>
     str_or_false (info ''channel'')"

text \<open>The raw title of a track as a string (empty when the field is not a string).\<close>

definition raw_title :: "info \<Rightarrow> path \<Rightarrow> string" where
  "raw_title info opus_file = (case title_field info opus_file of JStr t \<Rightarrow> t | _ \<Rightarrow> [])"

text \<open>The key under which \<open>move_and_tag\<close> files a sidecar.\<close>

definition sidecar_key :: "path \<Rightarrow> string" where
  "sidecar_key p = removesuffix (path_name p) ''.info.json''"

text \<open>
  The staging area is as the fetch stage leaves it: the listed audio files are distinct and
  exist, the listed sidecars exist and are well typed.
\<close>

definition staging_ok :: "DownloadResult \<Rightarrow> fs \<Rightarrow> bool" where
  "staging_ok result s \<longleftrightarrow>
     distinct (downloaded_files result) \<and>
     (\<forall>f\<in>set (downloaded_files result). \<exists>a. files s f = Some (Audio a)) \<and>
     (\<forall>p\<in>set (info_json_files result). \<exists>i. files s p = Some (InfoJson i) \<and> well_typed i)"

text \<open>The album directory of an album artist and an album name below the output
  directory.\<close>

definition album_path :: "path \<Rightarrow> string \<Rightarrow> string \<Rightarrow> path" where
  "album_path output_dir artist album_name =
     joinpath (joinpath output_dir (sanitize_filename artist)) (sanitize_filename album_name)"

text \<open>The destination names the third loop of \<open>move_and_tag\<close> builds for a list of pairs
  numbered from \<open>i\<close> on.\<close>

fun planned_names :: "nat \<Rightarrow> (path \<times> info) list \<Rightarrow> string list" where
  "planned_names i [] = []"
| "planned_names i ((opus_file, info) # rest) =
     dest_name i (raw_title info opus_file) # planned_names (Suc i) rest"

text \<open>
  The file system takes the album directory and the given names in it: no component of the
  directory has the character U+0000; each of the directory and the paths above it is an
  existing directory, or is no regular file and has a name of at most 255 bytes; each name is
  free of U+0000, has at most 255 bytes and is not that of an existing directory in the album
  directory; and no directory stands where the log goes.
\<close>

definition fs_accepts :: "fs \<Rightarrow> path \<Rightarrow> string list \<Rightarrow> bool" where
  "fs_accepts s album_dir names \<longleftrightarrow>
     (\<forall>c\<in>set album_dir. \<not> has_nul c) \<and>
     (\<forall>p\<in>set (path_prefixes album_dir).
        p \<in> dirs s \<or> (\<not> is_file s p \<and> \<not> name_too_long (path_name p))) \<and>
     (\<forall>n\<in>set names.
        \<not> has_nul n \<and> \<not> name_too_long n \<and> joinpath album_dir n \<notin> dirs s) \<and>
     joinpath album_dir ''download_log.json'' \<notin> dirs s"

text \<open>No staged file lies at a destination in the album directory or where the log goes.\<close>

definition apart :: "path list \<Rightarrow> path \<Rightarrow> string list \<Rightarrow> bool" where
  "apart sources album_dir names \<longleftrightarrow>
     (\<forall>f\<in>set sources.
        f \<noteq> joinpath album_dir ''download_log.json'' \<and>
        (\<forall>n\<in>set names. f \<noteq> joinpath album_dir n))"

text \<open>A playlist id that can stand in a query as it is: not empty, and free of \<open>#\<close>, \<open>&\<close>,
  \<open>%\<close>, \<open>+\<close>, tab, line feed and carriage return.\<close>

definition safe_id :: "ustr \<Rightarrow> bool" where
  "safe_id i \<longleftrightarrow> i \<noteq> [] \<and> (\<forall>c\<in>set i. c \<notin> set [35, 38, 37, 43, 9, 10, 13])"

section \<open>A staging area with a failed entry and a missing sidecar\<close>

text \<open>
  A playlist of four entries: the second could not be fetched, and the sidecar of the third
  is missing from the staging directory.
\<close>

definition example_playlist :: PlaylistInfo where
  "example_playlist =
     \<lparr>title = ''Road: Mix'', url = ''https://www.youtube.com/playlist?list=PL1'',
      entries = [], uploader = None\<rparr>"

definition example_run :: ydl_run where
  "example_run =
     \<lparr>staged = [''003 - C.opus'', ''001 - A (Official Video).info.json'',
                ''001 - A (Official Video).opus'', ''003 - C.webp'', ''004 - D.info.json'',
                ''004 - D.opus''],
      failures = [''ERROR: [youtube] b2: Video unavailable'']\<rparr>"

definition example_result :: DownloadResult where
  "example_result = download_playlist example_playlist [''tmp'', ''yt''] example_run"

definition example_staging :: fs where
  "example_staging =
     \<lparr>dirs = {[''tmp''], [''tmp'', ''yt'']},
      files =
        [[''tmp'', ''yt'', ''001 - A (Official Video).opus''] \<mapsto> Audio Map.empty,
         [''tmp'', ''yt'', ''003 - C.opus''] \<mapsto> Audio Map.empty,
         [''tmp'', ''yt'', ''004 - D.opus''] \<mapsto> Audio Map.empty,
         [''tmp'', ''yt'', ''001 - A (Official Video).info.json''] \<mapsto>
           InfoJson [''title'' \<mapsto> JStr ''A (Official Video)'', ''artist'' \<mapsto> JNull,
                     ''uploader'' \<mapsto> JStr ''Band'', ''id'' \<mapsto> JStr ''a1'',
                     ''duration'' \<mapsto> JNum 200, ''upload_date'' \<mapsto> JStr ''20200131''],
         [''tmp'', ''yt'', ''004 - D.info.json''] \<mapsto>
           InfoJson [''title'' \<mapsto> JStr ''D'', ''uploader'' \<mapsto> JStr ''Band'']]\<rparr>"

definition example_empty_run :: ydl_run where
  "example_empty_run =
     \<lparr>staged = [''001 - A.info.json'', ''001 - A.webp''],
      failures = [''ERROR: [youtube] a1: Video unavailable'']\<rparr>"

text \<open>
  A staging area with one track, whose sidecar gives the title \<open>t\<close> and no artist.
\<close>

definition solo_result :: DownloadResult where
  "solo_result =
     download_playlist example_playlist [''tmp'', ''yt'']
       \<lparr>staged = [''001 - A.info.json'', ''001 - A.opus''], failures = []\<rparr>"

definition solo_staging :: "string \<Rightarrow> fs" where
  "solo_staging t =
     \<lparr>dirs = {[''tmp''], [''tmp'', ''yt'']},
      files =
        [[''tmp'', ''yt'', ''001 - A.opus''] \<mapsto> Audio Map.empty,
         [''tmp'', ''yt'', ''001 - A.info.json''] \<mapsto> InfoJson [''title'' \<mapsto> JStr t]]\<rparr>"

text \<open>
  A staging area with one track and no sidecar. The name of the audio file, \<open>001 - \<close>, the
  letter U+00E9 122 times and \<open>.opus\<close>, has 255 bytes.
\<close>

definition long_stem :: string where
  "long_stem = ''001 - '' @ replicate 122 (CHR 0xE9)"

definition bare_result :: DownloadResult where
  "bare_result =
     download_playlist example_playlist [''tmp'', ''yt'']
       \<lparr>staged = [long_stem @ ''.opus''], failures = []\<rparr>"

definition bare_staging :: fs where
  "bare_staging =
     \<lparr>dirs = {[''tmp''], [''tmp'', ''yt'']},
      files = [[''tmp'', ''yt'', long_stem @ ''.opus''] \<mapsto> Audio Map.empty]\<rparr>"

section \<open>Lemmas on whitespace, trimming and substitution\<close>

lemma rmatch_Spaces_Nil: "rmatch (Spaces n) s = [] \<longleftrightarrow> length (takeWhile isspace s) < n"
  by auto

lemma rmatch_Spaces_Cons:
  assumes "n \<le> length (takeWhile isspace s)"
  shows "\<exists>rs. rmatch (Spaces n) s = dropWhile isspace s # rs"
proof -
  let ?k = "length (takeWhile isspace s)"
  have "[n ..< Suc ?k] = [n ..< ?k] @ [?k]" using assms by simp
  then have "rmatch (Spaces n) s = drop ?k s # map (\<lambda>j. drop j s) (rev [n ..< ?k])"
    by simp
  then show ?thesis by (simp add: dropWhile_eq_drop)
qed

lemma re_sub_Spaces_Nil: "0 < n \<Longrightarrow> re_sub (Spaces n) repl [] = []"
  by simp

lemma re_sub_Spaces_Cons:
  assumes "0 < n"
  shows "re_sub (Spaces n) repl (c # cs) =
     (if n \<le> length (takeWhile isspace (c # cs))
      then repl @ re_sub (Spaces n) repl (dropWhile isspace (c # cs))
      else c # re_sub (Spaces n) repl cs)"
proof (cases "n \<le> length (takeWhile isspace (c # cs))")
  case True
  then obtain rs where m: "rmatch (Spaces n) (c # cs) = dropWhile isspace (c # cs) # rs"
    using rmatch_Spaces_Cons by blast
  from True assms have "isspace c" by (auto split: if_splits)
  then have "length (dropWhile isspace (c # cs)) < length (c # cs)"
    by (simp add: length_dropWhile_le less_Suc_eq_le)
  with m True show ?thesis by (simp del: rmatch.simps)
next
  case False
  then have "rmatch (Spaces n) (c # cs) = []"
    using rmatch_Spaces_Nil[of n "c # cs"] by simp
  with False show ?thesis by (simp del: rmatch.simps)
qed

lemma re_sub_Spaces_hd:
  "0 < n \<Longrightarrow> \<not> isspace c \<Longrightarrow> re_sub (Spaces n) repl (c # cs) = c # re_sub (Spaces n) repl cs"
  by (simp add: re_sub_Spaces_Cons del: re_sub.simps)

lemma no_ws_pair_Cons:
  "no_ws_pair (a # t) \<longleftrightarrow> (t = [] \<or> \<not> (isspace a \<and> isspace (hd t))) \<and> no_ws_pair t"
  by (cases t) auto

lemma dropWhile_hd: "dropWhile P s = x # t \<Longrightarrow> \<not> P x"
  by (metis hd_dropWhile list.distinct(1) list.sel(1))

lemma no_ws_pair_fixed: "0 < n \<Longrightarrow> 
  no_ws_pair s \<Longrightarrow> re_sub (Spaces (Suc n)) repl s = s"
proof (induction s)
  case Nil
  then show ?case by simp
next
  case (Cons c cs)
  then have "\<not> Suc n \<le> length (takeWhile isspace (c # cs))"
    by (cases cs) (auto split: if_splits)
  with Cons show ?case
    by (simp add: re_sub_Spaces_Cons no_ws_pair_Cons del: re_sub.simps)
qed

lemma no_ws_pair_drop: "no_ws_pair s \<Longrightarrow> no_ws_pair (drop n s)"
proof (induction s arbitrary: n)
  case Nil
  then show ?case by simp
next
  case (Cons a s)
  then show ?case by (cases n) (auto simp: no_ws_pair_Cons)
qed

lemma no_ws_pair_take: "no_ws_pair s \<Longrightarrow> no_ws_pair (take n s)"
proof (induction s arbitrary: n rule: no_ws_pair.induct)
  case (1 a b t)
  show ?case
  proof (cases n)
    case 0
    then show ?thesis by simp
  next
    case (Suc m)
    show ?thesis
    proof (cases m)
      case 0
      with Suc show ?thesis by simp
    next
      case (Suc k)
      have "no_ws_pair (take (Suc k) (b # t))" using "1.IH"[of "Suc k"] "1.prems" by simp
      with "1.prems" Suc \<open>n = Suc m\<close> show ?thesis by simp
    qed
  qed
qed (auto simp: take_Cons split: nat.splits)

lemma rstrip_take: "rstrip s = take (length s - length (takeWhile isspace (rev s))) s"
  by (simp add: rstrip_def dropWhile_eq_drop rev_drop)

lemma lstrip_drop: "lstrip s = drop (length (takeWhile isspace s)) s"
  by (simp add: lstrip_def dropWhile_eq_drop)

lemma no_ws_pair_strip: "no_ws_pair s \<Longrightarrow> no_ws_pair (strip s)"
  by (simp add: strip_def rstrip_take lstrip_drop no_ws_pair_take no_ws_pair_drop)

lemma rstrip_idem: "rstrip (rstrip s) = rstrip s"
  by (simp add: rstrip_def)

lemma lstrip_hd: "lstrip s = [] \<or> \<not> isspace (hd (lstrip s))"
  unfolding lstrip_def by (metis hd_dropWhile)

lemma lstrip_id: "s = [] \<or> \<not> isspace (hd s) \<Longrightarrow> lstrip s = s"
  unfolding lstrip_def by (cases s) auto

lemma rstrip_hd: "rstrip s \<noteq> [] \<Longrightarrow> hd (rstrip s) = hd s"
  by (metis rstrip_take hd_take take_eq_Nil gr0I)

lemma strip_hd: "strip s = [] \<or> \<not> isspace (hd (strip s))"
  unfolding strip_def using lstrip_hd[of s] rstrip_hd[of "lstrip s"]
  by (metis rstrip_take take_Nil)

lemma rstrip_last: "rstrip s = [] \<or> \<not> isspace (last (rstrip s))"
  unfolding rstrip_def by (metis hd_dropWhile last_rev rev_is_Nil_conv)

lemma strip_last: "strip s = [] \<or> \<not> isspace (last (strip s))"
  unfolding strip_def by (rule rstrip_last)

lemma strip_idem: "strip (strip s) = strip s"
proof -
  have "lstrip (strip s) = strip s" using strip_hd[of s] by (simp add: lstrip_id)
  then show ?thesis by (simp add: strip_def[of "strip s"]) (simp add: strip_def rstrip_idem)
qed

lemma re_sub_no_match: "\<not> re_search r s \<Longrightarrow> re_sub r repl s = s"
  by (induction s) (auto simp del: rmatch.simps)

lemma re_sub_Set: "re_sub (Set cs) [] s = filter (\<lambda>c. c \<notin> set cs) s"
  by (induction s) auto

lemma set_re_sub_Spaces: "0 < n \<Longrightarrow> set (re_sub (Spaces n) repl s) \<subseteq> set s \<union> set repl"
proof (induction s rule: length_induct)
  case (1 s)
  show ?case
  proof (cases s)
    case Nil
    then show ?thesis using 1 by simp
  next
    case (Cons c cs)
    let ?d = "dropWhile isspace (c # cs)"
    show ?thesis
    proof (cases "n \<le> length (takeWhile isspace (c # cs))")
      case True
      with \<open>0 < n\<close> have "isspace c" by (auto split: if_splits)
      then have "length ?d < length s" using Cons by (simp add: length_dropWhile_le less_Suc_eq_le)
      with 1 have "set (re_sub (Spaces n) repl ?d) \<subseteq> set ?d \<union> set repl" by blast
      moreover have "set ?d \<subseteq> set s" unfolding Cons using set_dropWhileD by fastforce
      moreover have "re_sub (Spaces n) repl s = repl @ re_sub (Spaces n) repl ?d"
        unfolding Cons using True \<open>0 < n\<close> by (simp only: re_sub_Spaces_Cons if_True)
      ultimately show ?thesis by auto
    next
      case False
      have "set (re_sub (Spaces n) repl cs) \<subseteq> set cs \<union> set repl" using 1 Cons by simp
      moreover have "re_sub (Spaces n) repl s = c # re_sub (Spaces n) repl cs"
        unfolding Cons using False \<open>0 < n\<close> by (simp only: re_sub_Spaces_Cons if_False)
      ultimately show ?thesis using Cons by auto
    qed
  qed
qed

lemma rmatch_Lit_iff: "r \<in> set (rmatch (Lit p) s) \<longleftrightarrow> (\<exists>u. map lower u = map lower p \<and> s = u @ r)"
proof
  assume "r \<in> set (rmatch (Lit p) s)"
  then have a: "length p \<le> length s" "map lower (take (length p) s) = map lower p" "r = drop (length p) s"
    by (auto split: if_splits)
  then have "s = take (length p) s @ r" by simp
  with a show "\<exists>u. map lower u = map lower p \<and> s = u @ r" by blast
next
  assume "\<exists>u. map lower u = map lower p \<and> s = u @ r"
  then obtain u where u: "map lower u = map lower p" "s = u @ r" by blast
  then have "length u = length p" by (metis length_map)
  with u show "r \<in> set (rmatch (Lit p) s)" by simp
qed

lemma rmatch_Spaces_iff:
  "r \<in> set (rmatch (Spaces n) s) \<longleftrightarrow> (\<exists>w. n \<le> length w \<and> (\<forall>c\<in>set w. isspace c) \<and> s = w @ r)"
proof
  assume "r \<in> set (rmatch (Spaces n) s)"
  then obtain j where j: "n \<le> j" "j \<le> length (takeWhile isspace s)" "r = drop j s"
    by auto
  have "take j s = take j (takeWhile isspace s)"
    using j(2) by (metis append_eq_conv_conj takeWhile_dropWhile_id take_append diff_is_0_eq take_0 append_Nil2)
  then have "\<forall>c\<in>set (take j s). isspace c"
    by (metis in_set_takeD set_takeWhileD)
  moreover have "length (take j s) = j" using j(2) length_takeWhile_le[of isspace s] by simp
  ultimately show "\<exists>w. n \<le> length w \<and> (\<forall>c\<in>set w. isspace c) \<and> s = w @ r"
    using j by (intro exI[of _ "take j s"]) simp
next
  assume "\<exists>w. n \<le> length w \<and> (\<forall>c\<in>set w. isspace c) \<and> s = w @ r"
  then obtain w where w: "n \<le> length w" "\<forall>c\<in>set w. isspace c" "s = w @ r" by blast
  then have "takeWhile isspace s = w @ takeWhile isspace r" by (simp add: takeWhile_append2)
  then have "length w \<le> length (takeWhile isspace s)" by simp
  with w have "length w \<in> set (rev [n ..< Suc (length (takeWhile isspace s))])" by simp
  moreover have "drop (length w) s = r" using w by simp
  ultimately show "r \<in> set (rmatch (Spaces n) s)" by (metis (no_types, lifting) image_eqI list.set_map rmatch.simps(3))
qed

lemma rmatch_lang: "r \<in> set (rmatch rx s) \<longleftrightarrow> (\<exists>u\<in>lang rx. s = u @ r)"
proof (induction rx arbitrary: s r)
  case (Lit p)
  show ?case unfolding rmatch_Lit_iff by auto
next
  case (Set cs)
  show ?case by (cases s) auto
next
  case (Spaces n)
  show ?case unfolding rmatch_Spaces_iff by auto
next
  case (Seq a b)
  have "r \<in> set (rmatch (Seq a b) s) \<longleftrightarrow> (\<exists>m\<in>set (rmatch a s). r \<in> set (rmatch b m))"
    by simp
  also have "\<dots> \<longleftrightarrow> (\<exists>m. (\<exists>u\<in>lang a. s = u @ m) \<and> (\<exists>v\<in>lang b. m = v @ r))"
    using Seq by blast
  also have "\<dots> \<longleftrightarrow> (\<exists>x\<in>lang (Seq a b). s = x @ r)"
  proof
    assume "\<exists>m. (\<exists>u\<in>lang a. s = u @ m) \<and> (\<exists>v\<in>lang b. m = v @ r)"
    then obtain u v where "u \<in> lang a" "v \<in> lang b" "s = u @ v @ r" by blast
    then have "u @ v \<in> lang (Seq a b)" "s = (u @ v) @ r" by auto
    then show "\<exists>x\<in>lang (Seq a b). s = x @ r" by blast
  next
    assume "\<exists>x\<in>lang (Seq a b). s = x @ r"
    then obtain u v where uv: "u \<in> lang a" "v \<in> lang b" "s = (u @ v) @ r" by auto
    then have "s = u @ (v @ r)" by simp
    with uv show "\<exists>m. (\<exists>u\<in>lang a. s = u @ m) \<and> (\<exists>v\<in>lang b. m = v @ r)" by blast
  qed
  finally show ?case .
next
  case (Alt a b)
  then show ?case by auto
qed

lemma lower_not_upper: "c \<notin> set ''ABCDEFGHIJKLMNOPQRSTUVWXYZ'' \<Longrightarrow> lower c = c"
proof -
  assume a: "c \<notin> set ''ABCDEFGHIJKLMNOPQRSTUVWXYZ''"
  have "map_of (zip ''ABCDEFGHIJKLMNOPQRSTUVWXYZ'' ''abcdefghijklmnopqrstuvwxyz'') c = None"
    using a by (intro map_of_zip_is_None[THEN iffD2]) simp_all
  then show ?thesis by (simp only: lower_def option.case)
qed

lemma isspace_upper: "c \<in> set ''ABCDEFGHIJKLMNOPQRSTUVWXYZ'' \<Longrightarrow> \<not> isspace c \<and> \<not> isspace (lower c)"
  apply (simp only: set_simps insert_iff empty_iff)
  apply (elim disjE)
  apply (simp_all add: lower_def isspace_def)
  done

lemma same_phrase_word:
  "CHR '' '' \<notin> set w \<Longrightarrow> map lower u = map lower w \<Longrightarrow>
     same_phrase (w @ p) (u @ c) = same_phrase p c"
proof (induction w arbitrary: u)
  case Nil
  then show ?case by simp
next
  case (Cons x w)
  from Cons.prems(2) obtain y u' where u: "u = y # u'" and y: "lower y = lower x"
    and u': "map lower u' = map lower w"
    by (cases u) auto
  from Cons.prems(1) have x: "x \<noteq> CHR '' ''" and w: "CHR '' '' \<notin> set w" by auto
  have "same_phrase ((x # w) @ p) (u @ c) = same_phrase (w @ p) (u' @ c)"
    unfolding u by (simp only: append_Cons same_phrase.simps x y if_False list.case simp_thms)
  also have "\<dots> = same_phrase p c" using w u' by (rule Cons.IH)
  finally show ?case .
qed

lemma same_phrase_one:
  assumes "u \<in> lang (Lit w)" "CHR '' '' \<notin> set w"
  shows "same_phrase w u"
proof -
  from assms(1) have "map lower u = map lower w" by simp
  from same_phrase_word[OF assms(2) this, of "[]" "[]"] show ?thesis by simp
qed

lemma word_no_space:
  "CHR '' '' \<notin> set ''Official''" "CHR '' '' \<notin> set ''Video''" "CHR '' '' \<notin> set ''Audio''"
  "CHR '' '' \<notin> set ''Music''" "CHR '' '' \<notin> set ''Lyric''" "CHR '' '' \<notin> set ''Visualizer''"
  "CHR '' '' \<notin> set ''Only''" "CHR '' '' \<notin> set ''HQ''" "CHR '' '' \<notin> set ''HD''"
  "CHR '' '' \<notin> set ''4K''"
  by simp_all

lemma letter_not_space:
  "\<not> isspace CHR ''V''" "\<not> isspace CHR ''A''" "\<not> isspace CHR ''M''" "\<not> isspace CHR ''L''"
  "\<not> isspace CHR ''O''"
  by (simp_all add: isspace_def)

lemma isspace_lower: "isspace (lower c) = isspace c"
proof (cases "c \<in> set ''ABCDEFGHIJKLMNOPQRSTUVWXYZ''")
  case True
  then show ?thesis using isspace_upper by blast
next
  case False
  then have "lower c = c" by (rule lower_not_upper)
  then show ?thesis by (simp only:)
qed

lemma isspace_cong_lower: "lower y = lower x \<Longrightarrow> isspace y = isspace x"
  by (metis isspace_lower)

lemma same_phrase_hd:
  assumes "same_phrase p v" "p \<noteq> []" "\<not> isspace (hd p)"
  shows "v \<noteq> [] \<and> \<not> isspace (hd v)"
proof -
  obtain x p' where p: "p = x # p'" using assms(2) by (cases p) auto
  have x: "x \<noteq> CHR '' ''" "\<not> isspace x" using assms(3) p by (auto simp: isspace_def)
  have "case v of [] \<Rightarrow> False | y # c' \<Rightarrow> lower y = lower x \<and> same_phrase p' c'"
    using assms(1) unfolding p by (simp only: same_phrase.simps x if_False)
  then obtain y v' where "v = y # v'" "lower y = lower x"
    by (auto split: list.splits simp del: same_phrase.simps)
  with x(2) show ?thesis using isspace_cong_lower[of y x] by (simp only: list.sel, blast)
qed

lemma same_phrase_gap:
  assumes "sp \<noteq> []" "\<forall>x\<in>set sp. isspace x" "c = [] \<or> \<not> isspace (hd c)"
  shows "same_phrase (CHR '' '' # p) (sp @ c) = same_phrase p c"
proof -
  have "dropWhile isspace (sp @ c) = dropWhile isspace c"
    using assms(2) by (simp add: dropWhile_append2)
  also have "\<dots> = c" using assms(3) by (cases c) auto
  finally have d: "dropWhile isspace (sp @ c) = c" .
  have h: "sp @ c \<noteq> []" "isspace (hd (sp @ c))" using assms(1,2) by (cases sp; simp)+
  show ?thesis by (simp only: same_phrase.simps d h if_True simp_thms)
qed

lemma same_phrase_more:
  assumes "u \<in> lang (Lit w)" "sp \<in> lang (Spaces 1)" "same_phrase p v"
    and "CHR '' '' \<notin> set w" "p \<noteq> []" "\<not> isspace (hd p)"
  shows "same_phrase (w @ CHR '' '' # p) (u @ sp @ v)"
proof -
  have m: "map lower u = map lower w" using assms(1) by simp
  have a: "same_phrase (w @ CHR '' '' # p) (u @ sp @ v) = same_phrase (CHR '' '' # p) (sp @ v)"
    using assms(4) m by (rule same_phrase_word)
  have sp: "sp \<noteq> []" "\<forall>x\<in>set sp. isspace x" using assms(2) by auto
  have v: "v = [] \<or> \<not> isspace (hd v)" using same_phrase_hd[OF assms(3,5,6)] by blast
  have "same_phrase (CHR '' '' # p) (sp @ v) = same_phrase p v"
    using sp v by (rule same_phrase_gap)
  with a assms(3) show ?thesis by blast
qed

lemma two_words:
  assumes "k \<in> lang (Seq (Lit w1) (Seq (Spaces 1) (Lit w2)))"
    and "CHR '' '' \<notin> set w1" "CHR '' '' \<notin> set w2" "w2 \<noteq> []" "\<not> isspace (hd w2)"
  shows "same_phrase (w1 @ CHR '' '' # w2) k"
proof -
  from assms(1) obtain u sp v where k: "k = u @ sp @ v" and u: "u \<in> lang (Lit w1)"
    and sp: "sp \<in> lang (Spaces 1)" and v: "v \<in> lang (Lit w2)"
    unfolding lang.simps(4) by blast
  have "same_phrase w2 v" using v assms(3) by (rule same_phrase_one)
  with u sp show ?thesis unfolding k using assms(2,4,5) by (rule same_phrase_more)
qed

lemma lang_official_kinds:
  assumes "k \<in> lang official_kinds"
  shows "same_phrase ''Video'' k \<or> same_phrase ''Audio'' k \<or> same_phrase ''Music Video'' k
         \<or> same_phrase ''Lyric Video'' k \<or> same_phrase ''Visualizer'' k"
proof -
  from assms consider
      "k \<in> lang (Lit ''Video'')" | "k \<in> lang (Lit ''Audio'')"
    | "k \<in> lang (Seq (Lit ''Music'') (Seq (Spaces 1) (Lit ''Video'')))"
    | "k \<in> lang (Seq (Lit ''Lyric'') (Seq (Spaces 1) (Lit ''Video'')))"
    | "k \<in> lang (Lit ''Visualizer'')"
    unfolding official_kinds_def lang.simps(5) by blast
  then show ?thesis
  proof cases
    case 1
    then have "same_phrase ''Video'' k" using word_no_space(2) by (rule same_phrase_one)
    then show ?thesis by blast
  next
    case 2
    then have "same_phrase ''Audio'' k" using word_no_space(3) by (rule same_phrase_one)
    then show ?thesis by blast
  next
    case 3
    have "same_phrase (''Music'' @ CHR '' '' # ''Video'') k"
      using 3 word_no_space(4,2) by (rule two_words) (simp_all add: letter_not_space)
    then have "same_phrase ''Music Video'' k" by (simp only: append.simps)
    then show ?thesis by blast
  next
    case 4
    have "same_phrase (''Lyric'' @ CHR '' '' # ''Video'') k"
      using 4 word_no_space(5,2) by (rule two_words) (simp_all add: letter_not_space)
    then have "same_phrase ''Lyric Video'' k" by (simp only: append.simps)
    then show ?thesis by blast
  next
    case 5
    then have "same_phrase ''Visualizer'' k" using word_no_space(6) by (rule same_phrase_one)
    then show ?thesis by blast
  qed
qed

lemma official_phrase:
  assumes "u \<in> lang (Lit ''Official'')" "sp \<in> lang (Spaces 1)" "same_phrase p k"
    and "p \<noteq> []" "\<not> isspace (hd p)"
  shows "same_phrase (''Official '' @ p) (u @ sp @ k)"
proof -
  have "same_phrase (''Official'' @ CHR '' '' # p) (u @ sp @ k)"
    using assms(1,2,3) word_no_space(1) assms(4,5) by (rule same_phrase_more)
  then show ?thesis by (simp only: append.simps)
qed

lemma in_vocabulary:
  "''Official Video'' \<in> set vocabulary" "''Official Audio'' \<in> set vocabulary"
  "''Official Music Video'' \<in> set vocabulary" "''Official Lyric Video'' \<in> set vocabulary"
  "''Official Visualizer'' \<in> set vocabulary" "''Lyric Video'' \<in> set vocabulary"
  "''Audio Only'' \<in> set vocabulary" "''Audio'' \<in> set vocabulary" "''HQ'' \<in> set vocabulary"
  "''HD'' \<in> set vocabulary" "''4K'' \<in> set vocabulary"
  by (simp_all add: vocabulary_def)

lemma noise_contentI: "p \<in> set vocabulary \<Longrightarrow> same_phrase p c \<Longrightarrow> noise_content c"
  unfolding noise_content_def by blast

lemma lang_noise_phrase:
  assumes "c \<in> lang noise_phrase"
  shows "noise_content c"
proof -
  from assms consider
      "c \<in> lang (Seq (Lit ''Official'') (Seq (Spaces 1) official_kinds))"
    | "c \<in> lang (Seq (Lit ''Lyric'') (Seq (Spaces 1) (Lit ''Video'')))"
    | "c \<in> lang (Seq (Lit ''Audio'') (Seq (Spaces 1) (Lit ''Only'')))"
    | "c \<in> lang (Lit ''Audio'')" | "c \<in> lang (Lit ''HQ'')" | "c \<in> lang (Lit ''HD'')"
    | "c \<in> lang (Lit ''4K'')"
    unfolding noise_phrase_def lang.simps(5) by blast
  then show ?thesis
  proof cases
    case 1
    then obtain u sp k where c: "c = u @ sp @ k" and u: "u \<in> lang (Lit ''Official'')"
      and sp: "sp \<in> lang (Spaces 1)" and k: "k \<in> lang official_kinds"
      unfolding lang.simps(4) by blast
    from lang_official_kinds[OF k] consider
        "same_phrase ''Video'' k" | "same_phrase ''Audio'' k" | "same_phrase ''Music Video'' k"
      | "same_phrase ''Lyric Video'' k" | "same_phrase ''Visualizer'' k"
      by blast
    then show ?thesis
    proof cases
      case 1
      have "same_phrase (''Official '' @ ''Video'') c"
        unfolding c using u sp 1 by (rule official_phrase) (simp_all add: letter_not_space)
      then have "same_phrase ''Official Video'' c" by (simp only: append.simps)
      with in_vocabulary(1) show ?thesis by (rule noise_contentI)
    next
      case 2
      have "same_phrase (''Official '' @ ''Audio'') c"
        unfolding c using u sp 2 by (rule official_phrase) (simp_all add: letter_not_space)
      then have "same_phrase ''Official Audio'' c" by (simp only: append.simps)
      with in_vocabulary(2) show ?thesis by (rule noise_contentI)
    next
      case 3
      have "same_phrase (''Official '' @ ''Music Video'') c"
        unfolding c using u sp 3 by (rule official_phrase) (simp_all add: letter_not_space)
      then have "same_phrase ''Official Music Video'' c" by (simp only: append.simps)
      with in_vocabulary(3) show ?thesis by (rule noise_contentI)
    next
      case 4
      have "same_phrase (''Official '' @ ''Lyric Video'') c"
        unfolding c using u sp 4 by (rule official_phrase) (simp_all add: letter_not_space)
      then have "same_phrase ''Official Lyric Video'' c" by (simp only: append.simps)
      with in_vocabulary(4) show ?thesis by (rule noise_contentI)
    next
      case 5
      have "same_phrase (''Official '' @ ''Visualizer'') c"
        unfolding c using u sp 5 by (rule official_phrase) (simp_all add: letter_not_space)
      then have "same_phrase ''Official Visualizer'' c" by (simp only: append.simps)
      with in_vocabulary(5) show ?thesis by (rule noise_contentI)
    qed
  next
    case 2
    have "same_phrase (''Lyric'' @ CHR '' '' # ''Video'') c"
      using 2 word_no_space(5,2) by (rule two_words) (simp_all add: letter_not_space)
    then have "same_phrase ''Lyric Video'' c" by (simp only: append.simps)
    with in_vocabulary(6) show ?thesis by (rule noise_contentI)
  next
    case 3
    have "same_phrase (''Audio'' @ CHR '' '' # ''Only'') c"
      using 3 word_no_space(3,7) by (rule two_words) (simp_all add: letter_not_space)
    then have "same_phrase ''Audio Only'' c" by (simp only: append.simps)
    with in_vocabulary(7) show ?thesis by (rule noise_contentI)
  next
    case 4
    then have "same_phrase ''Audio'' c" using word_no_space(3) by (rule same_phrase_one)
    with in_vocabulary(8) show ?thesis by (rule noise_contentI)
  next
    case 5
    then have "same_phrase ''HQ'' c" using word_no_space(8) by (rule same_phrase_one)
    with in_vocabulary(9) show ?thesis by (rule noise_contentI)
  next
    case 6
    then have "same_phrase ''HD'' c" using word_no_space(9) by (rule same_phrase_one)
    with in_vocabulary(10) show ?thesis by (rule noise_contentI)
  next
    case 7
    then have "same_phrase ''4K'' c" using word_no_space(10) by (rule same_phrase_one)
    with in_vocabulary(11) show ?thesis by (rule noise_contentI)
  qed
qed

lemma lang_TITLE_NOISE: "seg \<in> lang TITLE_NOISE \<Longrightarrow> noise_annotation seg"
proof -
  assume "seg \<in> lang TITLE_NOISE"
  then obtain ws1 b1 ws2 c ws3 b2 where seg: "seg = ws1 @ b1 @ ws2 @ c @ ws3 @ b2"
    and "ws1 \<in> lang (Spaces 0)" "b1 \<in> lang (Set ''(['')" "ws2 \<in> lang (Spaces 0)"
      "c \<in> lang noise_phrase" "ws3 \<in> lang (Spaces 0)" "b2 \<in> lang (Set '')]'')"
    unfolding TITLE_NOISE_def lang.simps(4) by blast
  moreover then obtain ob cb where "b1 = [ob]" "ob \<in> set ''([''" "b2 = [cb]" "cb \<in> set '')]''"
    unfolding lang.simps(2) by blast
  moreover have "noise_content c" using \<open>c \<in> lang noise_phrase\<close> by (rule lang_noise_phrase)
  ultimately show ?thesis unfolding noise_annotation_def lang.simps(3) by blast
qed

lemma rmatch_TITLE_NOISE:
  "r \<in> set (rmatch TITLE_NOISE s) \<Longrightarrow> \<exists>seg. s = seg @ r \<and> noise_annotation seg"
  using rmatch_lang[of r TITLE_NOISE s] lang_TITLE_NOISE by blast

lemma re_sub_erases:
  assumes "\<And>s r. r \<in> set (rmatch rx s) \<Longrightarrow> \<exists>seg. s = seg @ r \<and> P seg"
  shows "erases P s (re_sub rx [] s)"
proof (induction s rule: length_induct)
  case (1 s)
  show ?case
  proof (cases s)
    case Nil
    then show ?thesis by (auto intro: erases_Nil split: list.splits simp del: rmatch.simps)
  next
    case (Cons c cs)
    have ih: "erases P cs (re_sub rx [] cs)" using 1 Cons by simp
    show ?thesis
    proof (cases "rmatch rx (c # cs)")
      case Nil
      with ih Cons show ?thesis by (simp add: erases_keep del: rmatch.simps)
    next
      case (Cons rest rs)
      then have "rest \<in> set (rmatch rx (c # cs))" by simp
      then obtain seg where seg: "c # cs = seg @ rest" "P seg" using assms by blast
      show ?thesis
      proof (cases "length rest < length (c # cs)")
        case True
        then have "erases P rest (re_sub rx [] rest)" using 1 \<open>s = c # cs\<close> by simp
        then have "erases P (seg @ rest) (re_sub rx [] rest)" using seg(2) by (intro erases_drop)
        moreover have "re_sub rx [] (c # cs) = re_sub rx [] rest"
          using True Cons by (simp del: rmatch.simps)
        ultimately show ?thesis unfolding \<open>s = c # cs\<close> seg(1)[symmetric] by (simp only:)
      next
        case False
        then show ?thesis using ih Cons \<open>s = c # cs\<close> by (simp add: erases_keep del: rmatch.simps)
      qed
    qed
  qed
qed

lemma no_ws_pair_re_sub_Spaces:
  assumes n: "0 < n" "n \<le> 2"
  shows "no_ws_pair (re_sub (Spaces n) '' '' s)"
proof (induction s rule: length_induct)
  case (1 s)
  show ?case
  proof (cases s)
    case Nil
    then show ?thesis using n by simp
  next
    case (Cons c cs)
    show ?thesis
    proof (cases "n \<le> length (takeWhile isspace (c # cs))")
      case True
      let ?d = "dropWhile isspace (c # cs)"
      from True n have "isspace c" by (auto split: if_splits)
      then have len: "length ?d < length s" using Cons
        by (simp add: less_Suc_eq_le length_dropWhile_le)
      have ih: "no_ws_pair (re_sub (Spaces n) '' '' ?d)" using 1 len by blast
      have eq: "re_sub (Spaces n) '' '' s = CHR '' '' # re_sub (Spaces n) '' '' ?d"
        unfolding Cons using True n by (simp add: re_sub_Spaces_Cons del: re_sub.simps)
      show ?thesis
      proof (cases ?d)
        case Nil
        then show ?thesis using eq n by simp
      next
        case (Cons x t)
        then have x: "\<not> isspace x" by (rule dropWhile_hd)
        then have "re_sub (Spaces n) '' '' ?d = x # re_sub (Spaces n) '' '' t"
          unfolding Cons using n by (simp add: re_sub_Spaces_hd del: re_sub.simps)
        with ih eq x show ?thesis by (simp add: no_ws_pair_Cons)
      qed
    next
      case False
      have eq: "re_sub (Spaces n) '' '' s = c # re_sub (Spaces n) '' '' cs"
        unfolding Cons using False n by (simp add: re_sub_Spaces_Cons del: re_sub.simps)
      have ih: "no_ws_pair (re_sub (Spaces n) '' '' cs)" using 1 Cons by simp
      show ?thesis
      proof (cases "isspace c")
        case sp: True
        show ?thesis
        proof (cases cs)
          case Nil
          then show ?thesis using eq n by simp
        next
          case (Cons x t)
          with False sp n have x: "\<not> isspace x" by (auto split: if_splits)
          then have "re_sub (Spaces n) '' '' cs = x # re_sub (Spaces n) '' '' t"
            unfolding Cons using n by (simp add: re_sub_Spaces_hd del: re_sub.simps)
          with ih eq x show ?thesis by (simp add: no_ws_pair_Cons)
        qed
      next
        case False
        with ih eq show ?thesis by (simp add: no_ws_pair_Cons)
      qed
    qed
  qed
qed

lemma set_strip: "set (strip s) \<subseteq> set s"
  unfolding strip_def rstrip_take lstrip_drop
  by (meson set_take_subset set_drop_subset subset_trans)

lemma set_squeezed: "set (squeezed name) \<subseteq> (set name - set illegal_chars) \<union> {CHR '' ''}"
proof -
  have "set (squeezed name) \<subseteq> set (re_sub (Spaces 1) '' '' (re_sub (Set illegal_chars) [] name))"
    unfolding squeezed_def by (rule set_strip)
  also have "\<dots> \<subseteq> set (re_sub (Set illegal_chars) [] name) \<union> set '' ''"
    by (rule set_re_sub_Spaces) simp
  also have "\<dots> = (set name - set illegal_chars) \<union> {CHR '' ''}"
    unfolding re_sub_Set by auto
  finally show ?thesis .
qed

lemma space_legal: "CHR '' '' \<notin> set illegal_chars"
  by (simp add: illegal_chars_def)

lemma no_ws_pair_squeezed: "no_ws_pair (squeezed name)"
  unfolding squeezed_def by (intro no_ws_pair_strip no_ws_pair_re_sub_Spaces) simp_all

section \<open>Lemmas on the album artist, the download result and the organize step\<close>

lemma fold_insert_set:
  "set (fold (\<lambda>x acc. List.insert (f x) acc) xs acc) = f ` set xs \<union> set acc"
  by (induction xs arbitrary: acc) auto

lemma fold_insert_distinct:
  "distinct acc \<Longrightarrow> distinct (fold (\<lambda>x acc. List.insert (f x) acc) xs acc)"
  by (induction xs arbitrary: acc) auto

lemma artists_card:
  "length (fold (\<lambda>info acc. List.insert (get_artist info) acc) infos []) =
     card (set (map get_artist infos))"
proof -
  let ?a = "fold (\<lambda>info acc. List.insert (get_artist info) acc) infos []"
  have "distinct ?a" by (rule fold_insert_distinct) simp
  then have "length ?a = card (set ?a)" by (simp add: distinct_card)
  then show ?thesis by (simp add: fold_insert_set)
qed

lemma errors_foldl_collect: "errors (foldl collect r ps) = errors r"
  by (induction ps arbitrary: r) (simp_all add: collect_def)

lemma downloaded_foldl_collect:
  "downloaded_files (foldl collect r ps) =
     downloaded_files r @ filter (\<lambda>p. path_suffix p = ''.opus'') ps"
  by (induction ps arbitrary: r) (simp_all add: collect_def)

lemma errors_download_playlist: "errors (download_playlist pinfo temp_dir run) = []"
  by (simp add: download_playlist_def errors_foldl_collect)

lemma sorted_downloaded_files:
  "sorted (downloaded_files (download_playlist pinfo temp_dir run))"
  by (simp add: download_playlist_def downloaded_foldl_collect sorted_filter[where f="\<lambda>x. x", simplified])

lemma well_typed_title:
  "well_typed info \<Longrightarrow> title_field info f = JStr (raw_title info f)"
  by (auto simp: well_typed_def title_field_def raw_title_def split: option.splits jval.splits)

lemma load_infos_ok:
  assumes "\<forall>p\<in>set ps. \<exists>i. files s p = Some (InfoJson i) \<and> P i"
    and "\<forall>k i. m k = Some i \<longrightarrow> P i"
  shows "\<exists>m'. load_infos s ps m = Inr m' \<and> (\<forall>k i. m' k = Some i \<longrightarrow> P i)"
  using assms
proof (induction ps arbitrary: m)
  case Nil
  then show ?case by simp
next
  case (Cons p ps)
  from Cons.prems(1) obtain i where i: "files s p = Some (InfoJson i)" "P i" by auto
  let ?m = "m(removesuffix (path_name p) ''.info.json'' \<mapsto> i)"
  have "\<forall>k j. ?m k = Some j \<longrightarrow> P j" using Cons.prems(2) i(2) by auto
  moreover have "\<forall>q\<in>set ps. \<exists>i. files s q = Some (InfoJson i) \<and> P i"
    using Cons.prems(1) by simp
  ultimately obtain m' where "load_infos s ps ?m = Inr m'" "\<forall>k i. m' k = Some i \<longrightarrow> P i"
    using Cons.IH by blast
  then show ?case using i(1) by (simp add: load_info_json_def)
qed

lemma load_infos_other:
  "load_infos s ps m = Inr m' \<Longrightarrow> k \<notin> sidecar_key ` set ps \<Longrightarrow> m' k = m k"
proof (induction ps arbitrary: m)
  case Nil
  then show ?case by simp
next
  case (Cons p ps)
  then show ?case
    by (auto simp: sidecar_key_def split: sum.splits)
qed

lemma load_infos_key:
  assumes "load_infos s ps m = Inr m'" "distinct (map sidecar_key ps)" "p \<in> set ps"
    "files s p = Some (InfoJson i)"
  shows "m' (sidecar_key p) = Some i"
  using assms
proof (induction ps arbitrary: m)
  case Nil
  then show ?case by simp
next
  case (Cons q ps)
  from Cons.prems(1) obtain j where j: "load_info_json s q = Inr j"
    and rest: "load_infos s ps (m(sidecar_key q \<mapsto> j)) = Inr m'"
    by (auto simp: sidecar_key_def split: sum.splits)
  show ?case
  proof (cases "p = q")
    case True
    with j Cons.prems(4) have "j = i" by (simp add: load_info_json_def)
    moreover have "sidecar_key q \<notin> sidecar_key ` set ps" using Cons.prems(2) by simp
    ultimately show ?thesis using load_infos_other[OF rest] True by simp
  next
    case False
    with Cons.prems have "p \<in> set ps" "distinct (map sidecar_key ps)" by simp_all
    with Cons.IH[OF rest] Cons.prems(4) show ?thesis by blast
  qed
qed

lemma well_typed_empty: "well_typed Map.empty"
  by (simp add: well_typed_def str_or_false_def)

lemma pair_up_fst: "map fst (pair_up m fs) = fs"
  by (simp add: pair_up_def comp_def)

lemma pair_up_well_typed:
  "\<forall>k i. m k = Some i \<longrightarrow> well_typed i \<Longrightarrow> (f, info) \<in> set (pair_up m fs) \<Longrightarrow> well_typed info"
  by (auto simp: pair_up_def well_typed_empty split: option.splits)

lemma first_truthy_str:
  "\<forall>k\<in>set keys. str_or_false (info k) \<Longrightarrow> first_truthy info keys = Some v \<Longrightarrow> \<exists>a. v = JStr a"
proof (induction keys)
  case Nil
  then show ?case by simp
next
  case (Cons k keys)
  then show ?case
    by (cases v) (auto simp: str_or_false_def split: option.splits if_splits)
qed

lemma get_artist_str: "well_typed info \<Longrightarrow> \<exists>a. get_artist info = JStr a"
proof -
  assume wt: "well_typed info"
  then have k: "\<forall>k\<in>set [''artist'', ''creator'', ''uploader'', ''channel'']. str_or_false (info k)"
    by (simp add: well_typed_def)
  show ?thesis
  proof (cases "first_truthy info [''artist'', ''creator'', ''uploader'', ''channel'']")
    case None
    then show ?thesis by (simp add: get_artist_def)
  next
    case (Some v)
    with first_truthy_str[OF k Some] show ?thesis by (simp add: get_artist_def)
  qed
qed

lemma determine_album_artist_str:
  assumes "\<forall>info\<in>set infos. well_typed info"
  shows "\<exists>a. determine_album_artist infos = JStr a"
proof -
  let ?a = "fold (\<lambda>info acc. List.insert (get_artist info) acc) infos []"
  show ?thesis
  proof (cases "length ?a = 1")
    case True
    then have "hd ?a \<in> set ?a" by (cases ?a) auto
    then obtain info where "info \<in> set infos" "hd ?a = get_artist info"
      by (auto simp: fold_insert_set)
    with assms get_artist_str[of info] True show ?thesis
      by (auto simp: determine_album_artist_def)
  next
    case False
    then show ?thesis by (simp add: determine_album_artist_def)
  qed
qed

lemma override_or_str: "\<exists>a. v = JStr a \<Longrightarrow> \<exists>a. override_or ov v = JStr a"
  by (auto simp: override_or_def split: option.splits)

lemma fmt_02d_two_digits: "i < 100 \<Longrightarrow> fmt_02d i = [digit_char (i div 10), digit_char (i mod 10)]"
proof (cases "i < 10")
  case True
  then have "str_nat i = [digit_char i]" by (simp add: str_nat.simps)
  with True show ?thesis by (simp add: fmt_02d_def digit_char_def)
next
  case False
  assume "i < 100"
  with False have "i div 10 < 10" by simp
  then have "str_nat (i div 10) = [digit_char (i div 10)]" by (simp add: str_nat.simps)
  with False have "str_nat i = [digit_char (i div 10), digit_char (i mod 10)]"
    by (subst str_nat.simps) simp
  then show ?thesis by (simp add: fmt_02d_def)
qed

lemma pair_up_nth:
  "j < length fs \<Longrightarrow>
     pair_up m fs ! j =
       (fs ! j, case m (path_stem (fs ! j)) of Some i \<Rightarrow> i | None \<Rightarrow> Map.empty)"
  by (simp add: pair_up_def)

lemma entries_nth:
  assumes "j < length fs"
  shows "map (\<lambda>(k, f, info). make_entry k (raw_title info f) info ov)
           (zip [1 ..< 1 + length fs] (pair_up m fs)) ! j =
         make_entry (Suc j) (raw_title (snd (pair_up m fs ! j)) (fs ! j))
           (snd (pair_up m fs ! j)) ov"
proof -
  have lp: "length (pair_up m fs) = length fs" by (simp add: pair_up_def)
  have "length [1 ..< 1 + length fs] = length fs" by (simp del: upt_Suc)
  then have "zip [1 ..< 1 + length fs] (pair_up m fs) ! j = (Suc j, pair_up m fs ! j)"
    using assms lp nth_upt[of 1 j "1 + length fs"] by (simp del: upt_Suc)
  moreover have "fst (pair_up m fs ! j) = fs ! j" using assms by (simp add: pair_up_nth)
  ultimately show ?thesis using assms lp by (simp add: split_beta del: upt_Suc)
qed

lemma example_downloaded:
  "downloaded_files example_result =
     [[''tmp'', ''yt'', ''001 - A (Official Video).opus''], [''tmp'', ''yt'', ''003 - C.opus''],
      [''tmp'', ''yt'', ''004 - D.opus'']]"
  by code_simp

lemma example_sidecars:
  "info_json_files example_result =
     [[''tmp'', ''yt'', ''001 - A (Official Video).info.json''],
      [''tmp'', ''yt'', ''004 - D.info.json'']]"
  by code_simp

lemma example_staging_ok: "staging_ok example_result example_staging"
  unfolding staging_ok_def example_downloaded example_sidecars
  by (simp add: example_staging_def well_typed_def str_or_false_def)

subsection \<open>Names, directories and the loop that tags and moves\<close>

lemma digit_char_mem: "d < 10 \<Longrightarrow> digit_char d \<in> set ''0123456789''"
  unfolding digit_char_def by (rule nth_mem) simp

lemma digit_char_inj: "d < 10 \<Longrightarrow> e < 10 \<Longrightarrow> digit_char d = digit_char e \<Longrightarrow> d = e"
proof -
  assume "d < 10" "e < 10" "digit_char d = digit_char e"
  moreover have "distinct ''0123456789''" by simp
  ultimately show "d = e" unfolding digit_char_def by (simp add: nth_eq_iff_index_eq)
qed

lemma str_nat_digits: "set (str_nat n) \<subseteq> set ''0123456789''"
proof (induction n rule: str_nat.induct)
  case (1 n)
  show ?case
  proof (cases "n < 10")
    case True
    then show ?thesis using digit_char_mem[of n] by (subst str_nat.simps) simp
  next
    case False
    have "n mod 10 < 10" by simp
    then have "digit_char (n mod 10) \<in> set ''0123456789''" by (rule digit_char_mem)
    with 1[OF False] False show ?thesis by (subst str_nat.simps) simp
  qed
qed

lemma str_nat_length: "(if n < 10 then 1 else if n < 100 then 2 else 3) \<le> length (str_nat n)"
proof -
  have one: "\<And>m. 1 \<le> length (str_nat m)" by (subst str_nat.simps) simp
  have two: "\<And>m. 10 \<le> m \<Longrightarrow> 2 \<le> length (str_nat m)"
    using one by (subst str_nat.simps) (simp add: Suc_le_eq)
  have three: "\<And>m. 100 \<le> m \<Longrightarrow> 3 \<le> length (str_nat m)"
  proof -
    fix m :: nat assume "100 \<le> m"
    then have "10 \<le> m div 10" by simp
    from two[OF this] \<open>100 \<le> m\<close> show "3 \<le> length (str_nat m)"
      by (subst str_nat.simps) simp
  qed
  show ?thesis using one two three by simp
qed

lemma str_nat_inj: "str_nat n = str_nat m \<Longrightarrow> n = m"
proof (induction n arbitrary: m rule: str_nat.induct)
  case (1 n)
  show ?case
  proof (cases "n < 10")
    case True
    then have n: "str_nat n = [digit_char n]" by (subst str_nat.simps) simp
    have "m < 10"
    proof (rule ccontr)
      assume "\<not> m < 10"
      then have "2 \<le> length (str_nat m)" using str_nat_length[of m] by (simp split: if_splits)
      moreover from 1(2) n have "str_nat m = [digit_char n]" by simp
      then have "length (str_nat m) = 1" by simp
      ultimately show False by simp
    qed
    then have "str_nat m = [digit_char m]" by (subst str_nat.simps) simp
    with 1(2) n True \<open>m < 10\<close> show ?thesis by (simp add: digit_char_inj)
  next
    case False
    then have n: "str_nat n = str_nat (n div 10) @ [digit_char (n mod 10)]"
      by (subst str_nat.simps) simp
    have "\<not> m < 10"
    proof
      assume "m < 10"
      then have "str_nat m = [digit_char m]" by (subst str_nat.simps) simp
      with 1(2) have "length (str_nat n) = 1" by simp
      moreover have "2 \<le> length (str_nat n)" using False str_nat_length[of n] by (simp split: if_splits)
      ultimately show False by simp
    qed
    then have m: "str_nat m = str_nat (m div 10) @ [digit_char (m mod 10)]"
      by (subst str_nat.simps) simp
    from 1(2) n m have a: "str_nat (n div 10) = str_nat (m div 10)"
      and b: "digit_char (n mod 10) = digit_char (m mod 10)" by simp_all
    from 1(1)[OF False a] have "n div 10 = m div 10" .
    moreover from b have "n mod 10 = m mod 10" by (simp add: digit_char_inj)
    ultimately show ?thesis by (metis div_mult_mod_eq)
  qed
qed

lemma fmt_02d_digits: "set (fmt_02d i) \<subseteq> set ''0123456789''"
proof -
  have "set (replicate (2 - length (str_nat i)) CHR ''0'') \<subseteq> set ''0123456789''" by auto
  with str_nat_digits[of i] show ?thesis unfolding fmt_02d_def set_append by blast
qed

lemma fmt_02d_inj: "fmt_02d i = fmt_02d k \<Longrightarrow> i = k"
proof -
  assume e: "fmt_02d i = fmt_02d k"
  have big: "\<And>m. \<not> m < 100 \<Longrightarrow> fmt_02d m = str_nat m"
  proof -
    fix m :: nat assume "\<not> m < 100"
    then have "3 \<le> length (str_nat m)" using str_nat_length[of m] by simp
    then show "fmt_02d m = str_nat m" by (simp add: fmt_02d_def)
  qed
  have long: "\<And>m. \<not> m < 100 \<Longrightarrow> 3 \<le> length (fmt_02d m)"
  proof -
    fix m :: nat assume m: "\<not> m < 100"
    then have "3 \<le> length (str_nat m)" using str_nat_length[of m] by simp
    then show "3 \<le> length (fmt_02d m)" unfolding big[OF m] .
  qed
  have small: "\<And>m. m < 100 \<Longrightarrow> length (fmt_02d m) = 2" by (simp add: fmt_02d_two_digits)
  show "i = k"
  proof (cases "i < 100")
    case True
    have k: "k < 100"
    proof (rule ccontr)
      assume "\<not> k < 100"
      from long[OF this] small[OF True] e show False by simp
    qed
    from e have "[digit_char (i div 10), digit_char (i mod 10)] =
        [digit_char (k div 10), digit_char (k mod 10)]"
      unfolding fmt_02d_two_digits[OF True] fmt_02d_two_digits[OF k] .
    then have "digit_char (i div 10) = digit_char (k div 10)"
      "digit_char (i mod 10) = digit_char (k mod 10)" by simp_all
    moreover have "i div 10 < 10" "k div 10 < 10" using True k by simp_all
    ultimately have "i div 10 = k div 10" "i mod 10 = k mod 10" by (simp_all add: digit_char_inj)
    then show ?thesis by (metis div_mult_mod_eq)
  next
    case False
    have k: "\<not> k < 100"
    proof
      assume "k < 100"
      from small[OF this] long[OF False] e show False by simp
    qed
    from e have "str_nat i = str_nat k" unfolding big[OF False] big[OF k] .
    then show ?thesis by (rule str_nat_inj)
  qed
qed

lemma dest_name_inj: "dest_name i t = dest_name k u \<Longrightarrow> i = k"
proof -
  assume e: "dest_name i t = dest_name k u"
  have tw: "\<And>m v. takeWhile (\<lambda>c. c \<noteq> CHR '' '') (dest_name m v) = fmt_02d m"
  proof -
    fix m v
    have "\<And>x. x \<in> set (fmt_02d m) \<Longrightarrow> x \<noteq> CHR '' ''" using fmt_02d_digits[of m] by auto
    then show "takeWhile (\<lambda>c. c \<noteq> CHR '' '') (dest_name m v) = fmt_02d m"
      unfolding dest_name_def by (simp add: takeWhile_append2)
  qed
  from e have "takeWhile (\<lambda>c. c \<noteq> CHR '' '') (dest_name i t) =
      takeWhile (\<lambda>c. c \<noteq> CHR '' '') (dest_name k u)" by simp
  then show "i = k" unfolding tw by (rule fmt_02d_inj)
qed

lemma dest_name_joinpath: "joinpath dir (dest_name i t) = dir @ [dest_name i t]"
proof -
  have "1 < length (dest_name i t)" by (simp add: dest_name_def)
  then have "dest_name i t \<noteq> [] \<and> dest_name i t \<noteq> ''.''" by auto
  then show ?thesis by (simp add: joinpath_def)
qed

lemma dest_name_not_log: "dest_name i t \<noteq> ''download_log.json''"
proof
  assume "dest_name i t = ''download_log.json''"
  then have "last (dest_name i t) = last ''download_log.json''" by simp
  then show False by (simp add: dest_name_def)
qed

lemma planned_names_from: "n \<in> set (planned_names i pairs) \<Longrightarrow> \<exists>k t. i \<le> k \<and> n = dest_name k t"
proof (induction pairs arbitrary: i)
  case Nil
  then show ?case by simp
next
  case (Cons pr rest)
  obtain f info where pr: "pr = (f, info)" by (cases pr)
  from Cons.prems pr consider "n = dest_name i (raw_title info f)" | "n \<in> set (planned_names (Suc i) rest)"
    by auto
  then show ?case
  proof cases
    case 1
    then show ?thesis by blast
  next
    case 2
    from Cons.IH[OF 2] obtain k t where "Suc i \<le> k" "n = dest_name k t" by blast
    then show ?thesis by (intro exI[of _ k] exI[of _ t]) simp
  qed
qed

lemma planned_names_length: "length (planned_names i pairs) = length pairs"
  by (induction pairs arbitrary: i) auto

lemma planned_names_nth:
  "j < length pairs \<Longrightarrow>
     planned_names i pairs ! j = dest_name (i + j) (raw_title (snd (pairs ! j)) (fst (pairs ! j)))"
proof (induction pairs arbitrary: i j)
  case Nil
  then show ?case by simp
next
  case (Cons pr rest)
  obtain f info where pr: "pr = (f, info)" by (cases pr)
  show ?case
  proof (cases j)
    case 0
    then show ?thesis by (simp add: pr)
  next
    case (Suc j')
    with Cons.prems have "j' < length rest" by simp
    from Cons.IH[OF this, of "Suc i"] show ?thesis by (simp add: pr Suc)
  qed
qed

lemma planned_names_joinpath:
  "n \<in> set (planned_names i pairs) \<Longrightarrow> joinpath dir n = dir @ [n]"
  using planned_names_from dest_name_joinpath by blast

lemma embed_metadata_ok:
  assumes "files s f = Some (Audio a)" "well_typed info"
  shows "\<exists>a'. embed_metadata f info alb i n art ov None s =
           Inr (s\<lparr>files := (files s)(f \<mapsto> Audio a')\<rparr>) \<and>
         a' ''tracknumber'' = Some [JStr (str_nat i)] \<and>
         a' ''tracktotal'' = Some [JStr (str_nat n)]"
proof -
  have t: "title_field info f = JStr (raw_title info f)" using assms(2) by (rule well_typed_title)
  have u: "str_or_false (info ''upload_date'')" using assms(2) by (simp add: well_typed_def)
  show ?thesis
    unfolding embed_metadata_def assms(1) t using u
    by (auto simp: Let_def str_or_false_def split: option.splits jval.splits)
qed

lemma os_rename_ok:
  assumes "files s src = Some f" "\<forall>c\<in>set dir. \<not> has_nul c" "\<not> has_nul n" "\<not> name_too_long n"
    "dir = [] \<or> dir \<in> dirs s"
  shows "os_rename src (dir @ [n]) s = Inr (s\<lparr>files := (files s)(src := None, dir @ [n] \<mapsto> f)\<rparr>)"
  using assms by (auto simp: os_rename_def path_name_def parent_exists_def)

lemma shutil_move_ok:
  assumes "files s src = Some f" "\<forall>c\<in>set dir. \<not> has_nul c" "\<not> has_nul n" "\<not> name_too_long n"
    "dir = [] \<or> dir \<in> dirs s" "dir @ [n] \<notin> dirs s"
  shows "shutil_move src (dir @ [n]) s = Inr (s\<lparr>files := (files s)(src := None, dir @ [n] \<mapsto> f)\<rparr>)"
  unfolding shutil_move_def using assms(6) os_rename_ok[OF assms(1-5)] by simp

lemma tag_and_move_ok:
  assumes "distinct (map fst pairs)"
    and "\<forall>(f, info)\<in>set pairs. (\<exists>a. files s f = Some (Audio a)) \<and> well_typed info"
    and "\<forall>c\<in>set dir. \<not> has_nul c"
    and "dir = [] \<or> dir \<in> dirs s"
    and "\<forall>n\<in>set (planned_names i pairs).
           \<not> has_nul n \<and> \<not> name_too_long n \<and> dir @ [n] \<notin> dirs s"
  shows "\<exists>s'. tag_and_move i n pairs alb art ov dir s =
           (Inr (map (\<lambda>(k, f, info). make_entry k (raw_title info f) info ov)
                   (zip [i ..< i + length pairs] pairs)), s') \<and>
         dirs s' = dirs s \<and>
         (\<forall>p. p \<notin> fst ` set pairs \<longrightarrow> p \<notin> (\<lambda>n. dir @ [n]) ` set (planned_names i pairs) \<longrightarrow>
              files s' p = files s p) \<and>
         ((\<forall>g\<in>fst ` set pairs. g \<notin> (\<lambda>n. dir @ [n]) ` set (planned_names i pairs)) \<longrightarrow>
            (\<forall>g\<in>fst ` set pairs. files s' g = None) \<and>
            (\<forall>j<length pairs. \<exists>tags.
               files s' (dir @ [planned_names i pairs ! j]) = Some (Audio tags) \<and>
               tags ''tracknumber'' = Some [JStr (str_nat (i + j))] \<and>
               tags ''tracktotal'' = Some [JStr (str_nat n)]))"
  using assms
proof (induction pairs arbitrary: i s)
  case Nil
  then show ?case by simp
next
  case (Cons pr rest)
  obtain f info where pr: "pr = (f, info)" by (cases pr)
  from Cons.prems(2) pr obtain a where a: "files s f = Some (Audio a)" and wt: "well_typed info"
    by auto
  obtain a' where e: "embed_metadata f info alb i n art ov None s =
      Inr (s\<lparr>files := (files s)(f \<mapsto> Audio a')\<rparr>)"
    and tn: "a' ''tracknumber'' = Some [JStr (str_nat i)]"
    and tt: "a' ''tracktotal'' = Some [JStr (str_nat n)]"
    using embed_metadata_ok[OF a wt] by blast
  define n0 where "n0 = dest_name i (raw_title info f)"
  define s1 where "s1 = s\<lparr>files := (files s)(f \<mapsto> Audio a')\<rparr>"
  define dst where "dst = dir @ [n0]"
  define s2 where "s2 = s1\<lparr>files := (files s1)(f := None, dst \<mapsto> Audio a')\<rparr>"
  have t: "title_field info f = JStr (raw_title info f)" using wt by (rule well_typed_title)
  have jp: "joinpath dir (dest_name i (raw_title info f)) = dst"
    by (simp add: dst_def n0_def dest_name_joinpath)
  have pn: "planned_names i (pr # rest) = n0 # planned_names (Suc i) rest"
    by (simp add: pr n0_def)
  from Cons.prems(5) have n0: "\<not> has_nul n0" "\<not> name_too_long n0" "dst \<notin> dirs s"
    and nm: "\<forall>m\<in>set (planned_names (Suc i) rest).
           \<not> has_nul m \<and> \<not> name_too_long m \<and> dir @ [m] \<notin> dirs s"
    unfolding pn dst_def by simp_all
  have f1: "files s1 f = Some (Audio a')" by (simp add: s1_def)
  have d1: "dirs s1 = dirs s" by (simp add: s1_def)
  have d2: "dirs s2 = dirs s" by (simp add: s1_def s2_def)
  have m: "shutil_move f dst s1 = Inr s2"
    unfolding dst_def s2_def
    using Cons.prems(4) n0(3) shutil_move_ok[OF f1 Cons.prems(3) n0(1,2), of ] 
    by (simp add: d1 dst_def)
  have d: "distinct (map fst rest)" using Cons.prems(1) by simp
  have nf: "f \<notin> fst ` set rest" using Cons.prems(1) pr by simp
  have inv: "\<forall>(g, info')\<in>set rest. (\<exists>b. files s2 g = Some (Audio b)) \<and> well_typed info'"
  proof (clarify, intro conjI)
    fix g info' assume in_rest: "(g, info') \<in> set rest"
    then have "g \<noteq> f" using nf by force
    moreover from Cons.prems(2) in_rest obtain b where "files s g = Some (Audio b)" by fastforce
    ultimately show "\<exists>b. files s2 g = Some (Audio b)" by (simp add: s1_def s2_def)
    from Cons.prems(2) in_rest show "well_typed info'" by fastforce
  qed
  have par2: "dir = [] \<or> dir \<in> dirs s2" using Cons.prems(4) by (simp add: d2)
  have nm2: "\<forall>m\<in>set (planned_names (Suc i) rest).
           \<not> has_nul m \<and> \<not> name_too_long m \<and> dir @ [m] \<notin> dirs s2"
    using nm by (simp add: d2)
  from Cons.IH[OF d inv Cons.prems(3) par2 nm2] obtain s' where
    ih: "tag_and_move (Suc i) n rest alb art ov dir s2 =
           (Inr (map (\<lambda>(k, f, info). make_entry k (raw_title info f) info ov)
                   (zip [Suc i ..< Suc i + length rest] rest)), s')"
    and ds: "dirs s' = dirs s2"
    and frame: "\<forall>p. p \<notin> fst ` set rest \<longrightarrow>
          p \<notin> (\<lambda>n. dir @ [n]) ` set (planned_names (Suc i) rest) \<longrightarrow> files s' p = files s2 p"
    and moved: "(\<forall>g\<in>fst ` set rest. g \<notin> (\<lambda>n. dir @ [n]) ` set (planned_names (Suc i) rest)) \<longrightarrow>
            (\<forall>g\<in>fst ` set rest. files s' g = None) \<and>
            (\<forall>j<length rest. \<exists>tags.
               files s' (dir @ [planned_names (Suc i) rest ! j]) = Some (Audio tags) \<and>
               tags ''tracknumber'' = Some [JStr (str_nat (Suc i + j))] \<and>
               tags ''tracktotal'' = Some [JStr (str_nat n)])"
    by blast
  have "[i ..< i + length ((f, info) # rest)] = i # [Suc i ..< Suc i + length rest]"
    using upt_conv_Cons[of i "i + length ((f, info) # rest)"] by (simp del: upt_Suc)
  then have z: "zip [i ..< i + length ((f, info) # rest)] ((f, info) # rest) =
             (i, f, info) # zip [Suc i ..< Suc i + length rest] rest"
    by (simp only: zip_Cons_Cons)
  have run: "tag_and_move i n ((f, info) # rest) alb art ov dir s =
          (Inr (make_entry i (raw_title info f) info ov #
                map (\<lambda>(k, f, info). make_entry k (raw_title info f) info ov)
                   (zip [Suc i ..< Suc i + length rest] rest)), s')"
    by (simp only: tag_and_move.simps e s1_def[symmetric] sum.case t jval.case jp m ih prod.case)
  have dirs': "dirs s' = dirs s" using ds by (simp add: d2)
  have later: "dst \<notin> (\<lambda>n. dir @ [n]) ` set (planned_names (Suc i) rest)"
  proof
    assume "dst \<in> (\<lambda>n. dir @ [n]) ` set (planned_names (Suc i) rest)"
    then have "n0 \<in> set (planned_names (Suc i) rest)" by (auto simp: dst_def)
    from planned_names_from[OF this] obtain k u where "Suc i \<le> k" "n0 = dest_name k u" by blast
    then show False using dest_name_inj[of i "raw_title info f" k u] by (simp add: n0_def)
  qed
  have fr: "\<forall>p. p \<notin> fst ` set (pr # rest) \<longrightarrow>
      p \<notin> (\<lambda>n. dir @ [n]) ` set (planned_names i (pr # rest)) \<longrightarrow> files s' p = files s p"
  proof (intro allI impI)
    fix p assume p1: "p \<notin> fst ` set (pr # rest)"
      and p2: "p \<notin> (\<lambda>n. dir @ [n]) ` set (planned_names i (pr # rest))"
    from p1 pr have "p \<noteq> f" "p \<notin> fst ` set rest" by auto
    moreover from p2 have "p \<noteq> dst" "p \<notin> (\<lambda>n. dir @ [n]) ` set (planned_names (Suc i) rest)"
      unfolding pn dst_def by auto
    ultimately have "files s' p = files s2 p" "files s2 p = files s p"
      using frame by (simp_all add: s1_def s2_def)
    then show "files s' p = files s p" by simp
  qed
  have mv: "(\<forall>g\<in>fst ` set (pr # rest). g \<notin> (\<lambda>n. dir @ [n]) ` set (planned_names i (pr # rest))) \<longrightarrow>
            (\<forall>g\<in>fst ` set (pr # rest). files s' g = None) \<and>
            (\<forall>j<length (pr # rest). \<exists>tags.
               files s' (dir @ [planned_names i (pr # rest) ! j]) = Some (Audio tags) \<and>
               tags ''tracknumber'' = Some [JStr (str_nat (i + j))] \<and>
               tags ''tracktotal'' = Some [JStr (str_nat n)])"
  proof (intro impI)
    assume ap: "\<forall>g\<in>fst ` set (pr # rest). g \<notin> (\<lambda>n. dir @ [n]) ` set (planned_names i (pr # rest))"
    have srcs: "fst ` set (pr # rest) = insert f (fst ` set rest)" by (simp add: pr)
    have dsts: "(\<lambda>n. dir @ [n]) ` set (planned_names i (pr # rest)) =
        insert dst ((\<lambda>n. dir @ [n]) ` set (planned_names (Suc i) rest))"
      unfolding pn dst_def by simp
    from ap have ap_f: "f \<noteq> dst" "f \<notin> (\<lambda>n. dir @ [n]) ` set (planned_names (Suc i) rest)"
      and ap_rest: "\<forall>g\<in>fst ` set rest. g \<noteq> dst \<and> g \<notin> (\<lambda>n. dir @ [n]) ` set (planned_names (Suc i) rest)"
      unfolding srcs dsts by auto
    from ap_rest have pre: "\<forall>g\<in>fst ` set rest. g \<notin> (\<lambda>n. dir @ [n]) ` set (planned_names (Suc i) rest)"
      by blast
    note both = mp[OF moved pre]
    note gone = conjunct1[OF both] and there = conjunct2[OF both]
    have "files s' f = files s2 f" using frame nf ap_f(2) by blast
    then have f_gone: "files s' f = None" using ap_f(1) by (simp add: s2_def)
    have "dst \<notin> fst ` set rest" using ap_rest by blast
    then have "files s' dst = files s2 dst" using frame later by blast
    then have dst_there: "files s' dst = Some (Audio a')" by (simp add: s2_def)
    have at: "\<exists>tags. files s' (dir @ [planned_names i (pr # rest) ! j]) = Some (Audio tags) \<and>
               tags ''tracknumber'' = Some [JStr (str_nat (i + j))] \<and>
               tags ''tracktotal'' = Some [JStr (str_nat n)]" if j: "j < length (pr # rest)" for j
    proof (cases j)
      case 0
      have "planned_names i (pr # rest) ! 0 = n0" unfolding pn by simp
      then have "files s' (dir @ [planned_names i (pr # rest) ! 0]) = Some (Audio a')"
        using dst_there unfolding dst_def by simp
      with tn tt show ?thesis unfolding 0 by (intro exI[of _ a'] conjI) simp_all
    next
      case (Suc j')
      with j have j': "j' < length rest" by simp
      have "planned_names i (pr # rest) ! Suc j' = planned_names (Suc i) rest ! j'"
        unfolding pn by simp
      moreover have "i + Suc j' = Suc i + j'" by simp
      ultimately show ?thesis using there[rule_format, OF j'] unfolding Suc by (simp only:)
    qed
    show "(\<forall>g\<in>fst ` set (pr # rest). files s' g = None) \<and>
            (\<forall>j<length (pr # rest). \<exists>tags.
               files s' (dir @ [planned_names i (pr # rest) ! j]) = Some (Audio tags) \<and>
               tags ''tracknumber'' = Some [JStr (str_nat (i + j))] \<and>
               tags ''tracktotal'' = Some [JStr (str_nat n)])"
    proof (intro conjI allI impI ballI)
      fix g assume "g \<in> fst ` set (pr # rest)"
      then have "g = f \<or> g \<in> fst ` set rest" unfolding srcs by simp
      then show "files s' g = None" using gone f_gone by auto
    next
      fix j assume "j < length (pr # rest)"
      then show "\<exists>tags. files s' (dir @ [planned_names i (pr # rest) ! j]) = Some (Audio tags) \<and>
               tags ''tracknumber'' = Some [JStr (str_nat (i + j))] \<and>
               tags ''tracktotal'' = Some [JStr (str_nat n)]" by (rule at)
    qed
  qed
  show ?case
    apply (rule exI[of _ s'])
    apply (intro conjI)
       apply (simp only: pr z run list.map prod.case)
      apply (rule dirs')
     apply (rule fr)
    apply (rule mv)
    done
qed

lemma make_dirs_ok:
  "\<forall>p\<in>set ps. p \<in> dirs s \<or> (\<not> is_file s p \<and> \<not> name_too_long (path_name p)) \<Longrightarrow>
     make_dirs ps s = (None, s\<lparr>dirs := dirs s \<union> set ps\<rparr>)"
proof (induction ps arbitrary: s)
  case Nil
  then show ?case by simp
next
  case (Cons p ps)
  show ?case
  proof (cases "p \<in> dirs s")
    case True
    then have "dirs s \<union> set (p # ps) = dirs s \<union> set ps" by auto
    moreover have "make_dirs ps s = (None, s\<lparr>dirs := dirs s \<union> set ps\<rparr>)"
      using Cons.prems by (intro Cons.IH) simp
    ultimately show ?thesis using True by simp
  next
    case False
    define s0 where "s0 = s\<lparr>dirs := insert p (dirs s)\<rparr>"
    have "\<forall>q\<in>set ps. q \<in> dirs s0 \<or> (\<not> is_file s0 q \<and> \<not> name_too_long (path_name q))"
      using Cons.prems by (auto simp: s0_def is_file_def)
    from Cons.IH[OF this] have "make_dirs ps s0 = (None, s0\<lparr>dirs := dirs s0 \<union> set ps\<rparr>)" .
    moreover have "s0\<lparr>dirs := dirs s0 \<union> set ps\<rparr> = s\<lparr>dirs := dirs s \<union> set (p # ps)\<rparr>"
      by (simp add: s0_def)
    moreover have "\<not> is_file s p \<and> \<not> name_too_long (path_name p)" using Cons.prems False by simp
    ultimately show ?thesis using False by (simp add: s0_def)
  qed
qed

lemma path_prefixes_self: "p \<noteq> [] \<Longrightarrow> p \<in> set (path_prefixes p)"
proof -
  assume "p \<noteq> []"
  then have "length p \<in> set [1 ..< Suc (length p)]" by (cases p) simp_all
  then have "take (length p) p \<in> set (path_prefixes p)" unfolding path_prefixes_def by (simp only: set_map image_eqI)
  then show ?thesis by simp
qed

lemma path_prefixes_length: "q \<in> set (path_prefixes p) \<Longrightarrow> length q \<le> length p"
  by (auto simp: path_prefixes_def)

lemma path_prefixes_not_below: "p @ [n] \<notin> set (path_prefixes p)"
  using path_prefixes_length[of "p @ [n]" p] by auto

lemma mkdir_parents_ok:
  assumes "fs_accepts s album_dir names"
  shows "mkdir_parents album_dir s =
           (None, s\<lparr>dirs := dirs s \<union> set (path_prefixes album_dir)\<rparr>)"
proof -
  from assms have "\<not> (\<exists>c\<in>set album_dir. has_nul c)"
    and "\<forall>p\<in>set (path_prefixes album_dir).
        p \<in> dirs s \<or> (\<not> is_file s p \<and> \<not> name_too_long (path_name p))"
    by (simp_all add: fs_accepts_def)
  then show ?thesis by (simp only: mkdir_parents_def if_False make_dirs_ok)
qed

lemma move_and_tag_unfold:
  assumes "load_infos s (info_json_files result) Map.empty = Inr info_map"
    and "pair_up info_map (downloaded_files result) = pairs" "pairs \<noteq> []"
    and "override_or ov (determine_album_artist (map snd pairs)) = JStr a"
    and "album_name = or_else alb (title (playlist_info result))"
    and "album_dir = joinpath (joinpath out (sanitize_filename a)) (sanitize_filename album_name)"
    and "mkdir_parents album_dir s = (None, s1)"
    and "tag_and_move 1 (length pairs) pairs album_name (JStr a) ov album_dir s1 =
           (Inr log_entries, s2)"
    and "write_log (joinpath album_dir ''download_log.json'')
           \<lparr>playlist_url = url (playlist_info result),
            playlist_title = title (playlist_info result),
            album = album_name,
            album_artist = JStr a,
            download_date = now,
            tracks = log_entries,
            log_errors = errors result\<rparr> s2 = Inr s3"
  shows "move_and_tag result out alb ov now s = (Inr album_dir, s3)"
proof (cases pairs)
  case Nil
  with assms(3) show ?thesis by simp
next
  case (Cons pr others)
  show ?thesis
    using assms(4,7,8,9)
    unfolding assms(6) assms(5) move_and_tag_def assms(1) sum.case assms(2) Cons list.case Let_def
    by (simp del: tag_and_move.simps)
qed

lemma move_and_tag_ok:
  assumes ok: "staging_ok result s" and ne: "downloaded_files result \<noteq> []"
    and lm: "load_infos s (info_json_files result) Map.empty = Inr info_map"
    and pairs: "pairs = pair_up info_map (downloaded_files result)"
    and a: "override_or ov (determine_album_artist (map snd pairs)) = JStr a"
    and dir: "album_dir = joinpath (joinpath out (sanitize_filename a))
                (sanitize_filename (or_else alb (title (playlist_info result))))"
    and acc: "fs_accepts s album_dir (planned_names 1 pairs)"
  shows "\<exists>s'.
     move_and_tag result out alb ov now s = (Inr album_dir, s') \<and>
     log_at s' (joinpath album_dir ''download_log.json'') =
       Some \<lparr>playlist_url = url (playlist_info result),
             playlist_title = title (playlist_info result),
             album = or_else alb (title (playlist_info result)),
             album_artist = JStr a,
             download_date = now,
             tracks = map (\<lambda>(k, f, info). make_entry k (raw_title info f) info ov)
                        (zip [1 ..< 1 + length (downloaded_files result)] pairs),
             log_errors = errors result\<rparr> \<and>
     (apart (downloaded_files result) album_dir (planned_names 1 pairs) \<longrightarrow>
        (\<forall>f\<in>set (downloaded_files result). files s' f = None) \<and>
        (\<forall>j<length (downloaded_files result). \<exists>tags.
           files s' (joinpath album_dir (planned_names 1 pairs ! j)) = Some (Audio tags) \<and>
           tags ''tracknumber'' = Some [JStr (str_nat (Suc j))] \<and>
           tags ''tracktotal'' = Some [JStr (str_nat (length (downloaded_files result)))]))"
proof -
  from ok obtain m' where "load_infos s (info_json_files result) Map.empty = Inr m'"
    and "\<forall>k i. m' k = Some i \<longrightarrow> well_typed i"
    using load_infos_ok[of "info_json_files result" s well_typed Map.empty]
    by (auto simp: staging_ok_def)
  with lm have wt: "\<forall>k i. info_map k = Some i \<longrightarrow> well_typed i" by simp
  have fst_pairs: "map fst pairs = downloaded_files result" by (simp add: pairs pair_up_fst)
  then have len: "length pairs = length (downloaded_files result)" by (metis length_map)
  have srcs: "fst ` set pairs = set (downloaded_files result)"
    using fst_pairs by (metis set_map)
  from len ne have pne: "pairs \<noteq> []" by auto
  have wts: "\<forall>(f, info)\<in>set pairs. well_typed info"
    using pair_up_well_typed[OF wt] by (auto simp: pairs)
  define album_name where "album_name = or_else alb (title (playlist_info result))"
  have dir': "album_dir = joinpath (joinpath out (sanitize_filename a)) (sanitize_filename album_name)"
    unfolding album_name_def by (rule dir)
  define s1 where "s1 = s\<lparr>dirs := dirs s \<union> set (path_prefixes album_dir)\<rparr>"
  have mk: "mkdir_parents album_dir s = (None, s1)"
    unfolding s1_def using acc by (rule mkdir_parents_ok)
  have files1: "files s1 = files s" by (simp add: s1_def)
  have below: "p \<in> dirs s1 \<longleftrightarrow> p \<in> dirs s" if "p = album_dir @ [n]" for p n
    using that path_prefixes_not_below[of album_dir n] by (simp add: s1_def)
  have nul: "\<forall>c\<in>set album_dir. \<not> has_nul c" using acc by (simp add: fs_accepts_def)
  have par: "album_dir = [] \<or> album_dir \<in> dirs s1"
    using path_prefixes_self[of album_dir] by (auto simp: s1_def)
  have nm: "\<forall>n\<in>set (planned_names 1 pairs).
           \<not> has_nul n \<and> \<not> name_too_long n \<and> album_dir @ [n] \<notin> dirs s1"
  proof
    fix n assume n: "n \<in> set (planned_names 1 pairs)"
    with acc have "\<not> has_nul n" "\<not> name_too_long n" "joinpath album_dir n \<notin> dirs s"
      by (simp_all add: fs_accepts_def)
    moreover have "joinpath album_dir n = album_dir @ [n]" using n by (rule planned_names_joinpath)
    ultimately show "\<not> has_nul n \<and> \<not> name_too_long n \<and> album_dir @ [n] \<notin> dirs s1"
      using below[of "album_dir @ [n]" n] by simp
  qed
  have dist: "distinct (map fst pairs)" using ok fst_pairs by (simp add: staging_ok_def)
  have ex: "\<forall>(f, info)\<in>set pairs. (\<exists>b. files s1 f = Some (Audio b)) \<and> well_typed info"
  proof (clarify, intro conjI)
    fix f info assume in_pairs: "(f, info) \<in> set pairs"
    then have "f \<in> set (map fst pairs)" by force
    then have "f \<in> set (downloaded_files result)" by (simp only: fst_pairs)
    with ok show "\<exists>b. files s1 f = Some (Audio b)" by (simp add: staging_ok_def files1)
    from wts in_pairs show "well_typed info" by auto
  qed
  define entries where "entries = map (\<lambda>(k, f, info). make_entry k (raw_title info f) info ov)
               (zip [1 ..< 1 + length pairs] pairs)"
  from tag_and_move_ok[OF dist ex nul par nm, of "length pairs" album_name "JStr a" ov]
  obtain s2 where loop:
    "tag_and_move 1 (length pairs) pairs album_name (JStr a) ov album_dir s1 = (Inr entries, s2)"
    and d2: "dirs s2 = dirs s1"
    and moved: "(\<forall>g\<in>fst ` set pairs. g \<notin> (\<lambda>n. album_dir @ [n]) ` set (planned_names 1 pairs)) \<longrightarrow>
            (\<forall>g\<in>fst ` set pairs. files s2 g = None) \<and>
            (\<forall>j<length pairs. \<exists>tags.
               files s2 (album_dir @ [planned_names 1 pairs ! j]) = Some (Audio tags) \<and>
               tags ''tracknumber'' = Some [JStr (str_nat (1 + j))] \<and>
               tags ''tracktotal'' = Some [JStr (str_nat (length pairs))])"
    unfolding entries_def by blast
  define log where "log =
       \<lparr>playlist_url = url (playlist_info result),
         playlist_title = title (playlist_info result),
         album = album_name, album_artist = JStr a, download_date = now,
         tracks = entries,
         log_errors = errors result\<rparr>"
  define log_path where "log_path = album_dir @ [''download_log.json'']"
  have lp: "joinpath album_dir ''download_log.json'' = log_path"
    by (simp add: joinpath_def log_path_def)
  define s3 where "s3 = s2\<lparr>files := (files s2)(log_path \<mapsto> LogFile log)\<rparr>"
  have "log_path \<notin> dirs s" using acc unfolding fs_accepts_def lp by simp
  then have "log_path \<notin> dirs s2" using below[of log_path "''download_log.json''"] d2
    by (simp add: log_path_def)
  moreover have "parent_exists s2 log_path" using par d2 by (simp add: parent_exists_def log_path_def)
  ultimately have wl: "write_log log_path log s2 = Inr s3"
    by (simp add: write_log_def s3_def)
  have run: "move_and_tag result out alb ov now s = (Inr album_dir, s3)"
    by (rule move_and_tag_unfold[OF lm pairs[symmetric] pne a album_name_def dir' mk loop
          wl[unfolded log_def lp[symmetric]]])
  have lg: "log_at s3 (joinpath album_dir ''download_log.json'') = Some log"
    unfolding lp by (simp add: log_at_def s3_def)
  have tail: "(\<forall>f\<in>set (downloaded_files result). files s3 f = None) \<and>
        (\<forall>j<length (downloaded_files result). \<exists>tags.
           files s3 (joinpath album_dir (planned_names 1 pairs ! j)) = Some (Audio tags) \<and>
           tags ''tracknumber'' = Some [JStr (str_nat (Suc j))] \<and>
           tags ''tracktotal'' = Some [JStr (str_nat (length (downloaded_files result)))])"
    if ap: "apart (downloaded_files result) album_dir (planned_names 1 pairs)"
  proof -
    have nolog: "\<forall>f\<in>set (downloaded_files result). f \<noteq> log_path"
      using ap unfolding apart_def lp by simp
    have "\<forall>g\<in>fst ` set pairs. g \<notin> (\<lambda>n. album_dir @ [n]) ` set (planned_names 1 pairs)"
    proof (intro ballI notI)
      fix g assume g: "g \<in> fst ` set pairs"
        and "g \<in> (\<lambda>n. album_dir @ [n]) ` set (planned_names 1 pairs)"
      then obtain n where n: "n \<in> set (planned_names 1 pairs)" "g = album_dir @ [n]" by auto
      from planned_names_joinpath[OF n(1), of album_dir] n(2) have "g = joinpath album_dir n" by simp
      moreover from g have "g \<in> set (downloaded_files result)" unfolding srcs .
      ultimately show False using ap n(1) unfolding apart_def by blast
    qed
    note both = mp[OF moved this]
    note gone = conjunct1[OF both] and there = conjunct2[OF both]
    have "files s3 f = None" if "f \<in> set (downloaded_files result)" for f
    proof -
      from that nolog have "f \<noteq> log_path" by simp
      moreover from that gone have "files s2 f = None" unfolding srcs by simp
      ultimately show ?thesis by (simp add: s3_def)
    qed
    moreover have "\<exists>tags.
           files s3 (joinpath album_dir (planned_names 1 pairs ! j)) = Some (Audio tags) \<and>
           tags ''tracknumber'' = Some [JStr (str_nat (Suc j))] \<and>
           tags ''tracktotal'' = Some [JStr (str_nat (length (downloaded_files result)))]"
      if j: "j < length (downloaded_files result)" for j
    proof -
      from j have jl: "j < length pairs" by (simp add: len)
      then have mem: "planned_names 1 pairs ! j \<in> set (planned_names 1 pairs)"
        by (simp add: planned_names_length)
      have jp: "joinpath album_dir (planned_names 1 pairs ! j) = album_dir @ [planned_names 1 pairs ! j]"
        using mem by (rule planned_names_joinpath)
      from planned_names_from[OF mem] obtain k t where "planned_names 1 pairs ! j = dest_name k t"
        by blast
      then have "planned_names 1 pairs ! j \<noteq> ''download_log.json''"
        using dest_name_not_log by simp
      then have ne: "album_dir @ [planned_names 1 pairs ! j] \<noteq> log_path" by (simp add: log_path_def)
      from there[rule_format, OF jl] obtain tags where
        "files s2 (album_dir @ [planned_names 1 pairs ! j]) = Some (Audio tags)"
        "tags ''tracknumber'' = Some [JStr (str_nat (1 + j))]"
        "tags ''tracktotal'' = Some [JStr (str_nat (length pairs))]" by blast
      then show ?thesis unfolding jp using ne by (intro exI[of _ tags]) (simp add: s3_def len)
    qed
    ultimately show ?thesis by blast
  qed
  show ?thesis
  proof (intro exI[of _ s3] conjI impI)
    show "move_and_tag result out alb ov now s = (Inr album_dir, s3)" by (rule run)
    show "log_at s3 (joinpath album_dir ''download_log.json'') =
       Some \<lparr>playlist_url = url (playlist_info result),
             playlist_title = title (playlist_info result),
             album = or_else alb (title (playlist_info result)),
             album_artist = JStr a,
             download_date = now,
             tracks = map (\<lambda>(k, f, info). make_entry k (raw_title info f) info ov)
                        (zip [1 ..< 1 + length (downloaded_files result)] pairs),
             log_errors = errors result\<rparr>"
      using lg unfolding log_def entries_def album_name_def len .
  next
    assume ap: "apart (downloaded_files result) album_dir (planned_names 1 pairs)"
    from tail[OF ap] show "\<forall>f\<in>set (downloaded_files result). files s3 f = None" by (rule conjunct1)
    from tail[OF ap] show "\<forall>j<length (downloaded_files result). \<exists>tags.
           files s3 (joinpath album_dir (planned_names 1 pairs ! j)) = Some (Audio tags) \<and>
           tags ''tracknumber'' = Some [JStr (str_nat (Suc j))] \<and>
           tags ''tracktotal'' = Some [JStr (str_nat (length (downloaded_files result)))]"
      by (rule conjunct2)
  qed
qed

subsection \<open>The example staging area\<close>

lemma example_info_map:
  assumes "load_infos example_staging (info_json_files example_result) Map.empty = Inr info_map"
  shows "info_map =
     [''001 - A (Official Video)'' \<mapsto>
        [''title'' \<mapsto> JStr ''A (Official Video)'', ''artist'' \<mapsto> JNull,
         ''uploader'' \<mapsto> JStr ''Band'', ''id'' \<mapsto> JStr ''a1'',
         ''duration'' \<mapsto> JNum 200, ''upload_date'' \<mapsto> JStr ''20200131''],
      ''004 - D'' \<mapsto> [''title'' \<mapsto> JStr ''D'', ''uploader'' \<mapsto> JStr ''Band'']]"
proof -
  have k1: "removesuffix (path_name [''tmp'', ''yt'', ''001 - A (Official Video).info.json''])
      ''.info.json'' = ''001 - A (Official Video)''"
    by code_simp
  have k2: "removesuffix (path_name [''tmp'', ''yt'', ''004 - D.info.json'']) ''.info.json'' =
      ''004 - D''"
    by code_simp
  have f1: "load_info_json example_staging [''tmp'', ''yt'', ''001 - A (Official Video).info.json''] =
      Inr [''title'' \<mapsto> JStr ''A (Official Video)'', ''artist'' \<mapsto> JNull,
         ''uploader'' \<mapsto> JStr ''Band'', ''id'' \<mapsto> JStr ''a1'',
         ''duration'' \<mapsto> JNum 200, ''upload_date'' \<mapsto> JStr ''20200131'']"
    by (simp add: load_info_json_def example_staging_def)
  have f2: "load_info_json example_staging [''tmp'', ''yt'', ''004 - D.info.json''] =
      Inr [''title'' \<mapsto> JStr ''D'', ''uploader'' \<mapsto> JStr ''Band'']"
    by (simp add: load_info_json_def example_staging_def)
  from assms show ?thesis
    unfolding example_sidecars load_infos.simps f1 f2 k1 k2 sum.case by simp
qed

lemma example_accepted:
  assumes "load_infos example_staging (info_json_files example_result) Map.empty = Inr info_map"
    and "override_or None
           (determine_album_artist (map snd (pair_up info_map (downloaded_files example_result)))) =
         JStr a"
  shows "fs_accepts example_staging
           (album_path [''home'', ''Music''] a (or_else None (title (playlist_info example_result))))
           (planned_names 1 (pair_up info_map (downloaded_files example_result)))"
    and "apart (downloaded_files example_result)
           (album_path [''home'', ''Music''] a (or_else None (title (playlist_info example_result))))
           (planned_names 1 (pair_up info_map (downloaded_files example_result)))"
proof -
  note m = example_info_map[OF assms(1)]
  have "override_or None
           (determine_album_artist (map snd (pair_up
     [''001 - A (Official Video)'' \<mapsto>
        [''title'' \<mapsto> JStr ''A (Official Video)'', ''artist'' \<mapsto> JNull,
         ''uploader'' \<mapsto> JStr ''Band'', ''id'' \<mapsto> JStr ''a1'',
         ''duration'' \<mapsto> JNum 200, ''upload_date'' \<mapsto> JStr ''20200131''],
      ''004 - D'' \<mapsto> [''title'' \<mapsto> JStr ''D'', ''uploader'' \<mapsto> JStr ''Band'']]
         (downloaded_files example_result)))) = JStr ''Various Artists''"
    by code_simp
  with assms(2) have a: "a = ''Various Artists''" unfolding m by simp
  show "fs_accepts example_staging
           (album_path [''home'', ''Music''] a (or_else None (title (playlist_info example_result))))
           (planned_names 1 (pair_up info_map (downloaded_files example_result)))"
    unfolding m a by code_simp
  show "apart (downloaded_files example_result)
           (album_path [''home'', ''Music''] a (or_else None (title (playlist_info example_result))))
           (planned_names 1 (pair_up info_map (downloaded_files example_result)))"
    unfolding m a by code_simp
qed

lemma solo_staging_ok: "staging_ok solo_result (solo_staging t)"
proof -
  have "downloaded_files solo_result = [[''tmp'', ''yt'', ''001 - A.opus'']]" by code_simp
  moreover have "info_json_files solo_result = [[''tmp'', ''yt'', ''001 - A.info.json'']]"
    by code_simp
  ultimately show ?thesis
    unfolding staging_ok_def by (simp add: solo_staging_def well_typed_def str_or_false_def)
qed

lemma bare_staging_ok: "staging_ok bare_result bare_staging"
proof -
  have "downloaded_files bare_result = [[''tmp'', ''yt'', long_stem @ ''.opus'']]"
    unfolding long_stem_def by code_simp
  moreover have "info_json_files bare_result = []" by code_simp
  ultimately show ?thesis
    unfolding staging_ok_def by (simp add: bare_staging_def)
qed

section \<open>Lemmas on the canonical playlist URL\<close>

lemma ascii_prefix:
  "ascii ''https://www.youtube.com/playlist?list='' =
     [104, 116, 116, 112, 115, 58, 47, 47, 119, 119, 119, 46, 121, 111, 117, 116, 117, 98, 101,
      46, 99, 111, 109, 47, 112, 108, 97, 121, 108, 105, 115, 116, 63, 108, 105, 115, 116, 61]"
  by code_simp

lemma ascii_list: "ascii ''list'' = [108, 105, 115, 116]"
  by code_simp

lemma split_on_absent: "c \<notin> set s \<Longrightarrow> split_on c s = [s]"
  by (induction s) auto

lemma url_query_canonical:
  assumes "\<forall>c\<in>set i. c \<noteq> 35 \<and> c \<noteq> 9 \<and> c \<noteq> 10 \<and> c \<noteq> 13"
  shows "url_query lib (canonical i) = Inr ([108, 105, 115, 116, 61] @ i)"
proof -
  have f: "filter (\<lambda>c. c \<noteq> 9 \<and> c \<noteq> 13 \<and> c \<noteq> 10) i = i"
    using assms by (auto simp: filter_id_conv)
  have t: "takeWhile (\<lambda>x. x \<noteq> 35) i = i"
    using assms by (auto simp: takeWhile_eq_all_conv)
  show ?thesis
    unfolding canonical_def ascii_prefix url_query_def
    by (simp add: f t drop_scheme_def is_ascii_alpha_def scheme_char_def before_first_def
        after_first_def Let_def)
qed

lemma unquote_plus_plain: "37 \<notin> set s \<Longrightarrow> 43 \<notin> set s \<Longrightarrow> unquote_plus lib s = s"
proof -
  assume p: "37 \<notin> set s" and q: "43 \<notin> set s"
  from q have m: "map (\<lambda>c. if c = 43 then 32 else c) s = s" by (induction s) auto
  show ?thesis unfolding unquote_plus_def m using p by (simp add: unquote_def)
qed

lemma parse_qsl_list:
  assumes "i \<noteq> []" "38 \<notin> set i" "37 \<notin> set i" "43 \<notin> set i"
  shows "parse_qsl lib ([108, 105, 115, 116, 61] @ i) = [([108, 105, 115, 116], i)]"
proof -
  have s: "split_on 38 ([108, 105, 115, 116, 61] @ i) = [[108, 105, 115, 116, 61] @ i]"
    using assms(2) by (intro split_on_absent) simp
  have n: "unquote_plus lib [108, 105, 115, 116] = [108, 105, 115, 116]"
    by (rule unquote_plus_plain) simp_all
  have v: "unquote_plus lib i = i" using assms(3,4) by (rule unquote_plus_plain)
  show ?thesis
    unfolding parse_qsl_def s using assms(1)
    by (simp add: before_first_def after_first_def n v)
qed

lemma list_id_canonical: "safe_id i \<Longrightarrow> list_id lib (canonical i) = Inr (Some i)"
proof -
  assume s: "safe_id i"
  then have q: "url_query lib (canonical i) = Inr ([108, 105, 115, 116, 61] @ i)"
    by (intro url_query_canonical) (auto simp: safe_id_def)
  from s have p: "parse_qsl lib ([108, 105, 115, 116, 61] @ i) = [([108, 105, 115, 116], i)]"
    by (intro parse_qsl_list) (auto simp: safe_id_def)
  show ?thesis unfolding list_id_def q sum.case p by (simp add: first_list_value_def ascii_list)
qed

section \<open>Title cleaning: the claims\<close>

text \<open>
  C2, as stated, fails: \<open>clean_title\<close> makes one pass of the noise pattern, and deleting an
  annotation can bring the two halves of another one together. Cleaning \<open>A (H(HD)D)\<close> gives
  \<open>A (HD)\<close>, and cleaning that gives \<open>A\<close>.
\<close>

theorem clean_title_not_idempotent:
  "clean_title ''A (H(HD)D)'' = ''A (HD)'' \<and> clean_title (clean_title ''A (H(HD)D)'') = ''A''"
  by code_simp

text \<open>
  C2, amended: for every title \<open>x\<close> whose cleaned form no longer contains a match of the noise
  pattern, cleaning is idempotent: \<open>clean_title (clean_title x) = clean_title x\<close>.
\<close>

theorem clean_title_idempotent_without_residue:
  "\<not> re_search TITLE_NOISE (clean_title x) \<Longrightarrow> clean_title (clean_title x) = clean_title x"
proof (cases "cleaned x = []")
  case True
  then have "clean_title x = x" by (simp add: clean_title_def)
  then show ?thesis by simp
next
  case False
  assume nm: "\<not> re_search TITLE_NOISE (clean_title x)"
  let ?y = "cleaned x"
  from False have y: "clean_title x = ?y" by (simp add: clean_title_def)
  have "no_ws_pair ?y"
    unfolding cleaned_def by (intro no_ws_pair_strip no_ws_pair_re_sub_Spaces) simp_all
  then have "re_sub (Spaces 2) '' '' ?y = ?y"
    using no_ws_pair_fixed[of 1 ?y] by (simp add: numeral_2_eq_2)
  moreover have "re_sub TITLE_NOISE [] ?y = ?y" using nm y by (simp add: re_sub_no_match)
  moreover have "strip ?y = ?y" unfolding cleaned_def by (rule strip_idem)
  ultimately have "cleaned ?y = ?y" by (simp add: cleaned_def[of ?y])
  with False y show ?thesis by (simp add: clean_title_def)
qed

theorem clean_title_idempotent_without_residue_witness:
  "\<not> re_search TITLE_NOISE (clean_title ''Song (Official Video) [HD]'') \<and>
   clean_title ''Song (Official Video) [HD]'' = ''Song'' \<and>
   clean_title (clean_title ''Song (Official Video) [HD]'') = ''Song''"
proof -
  have c: "clean_title ''Song (Official Video) [HD]'' = ''Song''" by code_simp
  have h: "\<not> re_search TITLE_NOISE (clean_title ''Song (Official Video) [HD]'')" by code_simp
  from clean_title_idempotent_without_residue[OF h] c h show ?thesis by simp
qed

text \<open>
  C3, as stated, fails on the word "exactly": the pattern joins the words of a phrase with
  \<open>\s+\<close>, so an annotation whose words are two spaces apart is removed although its content is
  not, up to case and surrounding whitespace, a phrase of the vocabulary.
\<close>

theorem clean_title_removes_inexact_phrase:
  "clean_title ''Song (Official  Video)'' = ''Song'' \<and> \<not> exact_content ''Official  Video''"
  by code_simp

text \<open>
  C3, amended: the noise substitution of \<open>clean_title\<close> deletes only segments made of optional
  whitespace, an opening parenthesis or bracket, and a closing parenthesis or bracket (not
  necessarily of the same kind), whose whole content between the delimiters is a vocabulary
  phrase up to letter case, optional surrounding whitespace, and the length of the whitespace
  runs between the words of the phrase; a title in which the pattern matches nowhere passes
  the substitution unchanged; in particular \<open>clean_title "Song (Official Video)" = "Song"\<close>,
  \<open>clean_title "Track [HD]" = "Track"\<close> and \<open>clean_title "Keep (This)" = "Keep (This)"\<close>.
\<close>

theorem clean_title_removes_only_noise:
  "erases noise_annotation raw (re_sub TITLE_NOISE [] raw) \<and>
   cleaned raw = strip (re_sub (Spaces 2) '' '' (re_sub TITLE_NOISE [] raw)) \<and>
   (\<not> re_search TITLE_NOISE raw \<longrightarrow> re_sub TITLE_NOISE [] raw = raw) \<and>
   clean_title ''Song (Official Video)'' = ''Song'' \<and>
   clean_title ''Track [HD]'' = ''Track'' \<and>
   clean_title ''Keep (This)'' = ''Keep (This)''"
proof -
  have "erases noise_annotation raw (re_sub TITLE_NOISE [] raw)"
    by (rule re_sub_erases) (rule rmatch_TITLE_NOISE)
  moreover have "\<not> re_search TITLE_NOISE raw \<longrightarrow> re_sub TITLE_NOISE [] raw = raw"
    by (simp add: re_sub_no_match)
  moreover have "clean_title ''Song (Official Video)'' = ''Song''" by code_simp
  moreover have "clean_title ''Track [HD]'' = ''Track''" by code_simp
  moreover have "clean_title ''Keep (This)'' = ''Keep (This)''" by code_simp
  ultimately show ?thesis unfolding cleaned_def by blast
qed

theorem clean_title_removes_only_noise_witness:
  "erases noise_annotation ''Song (Official Video) live [x]'' ''Song live [x]'' \<and>
   cleaned ''Song (Official Video) live [x]'' = ''Song live [x]'' \<and>
   \<not> re_search TITLE_NOISE ''Keep (This)'' \<and>
   re_sub TITLE_NOISE [] ''Keep (This)'' = ''Keep (This)''"
proof -
  have r: "re_sub TITLE_NOISE [] ''Song (Official Video) live [x]'' = ''Song live [x]''"
    by code_simp
  have s: "strip (re_sub (Spaces 2) '' '' ''Song live [x]'') = ''Song live [x]''"
    by code_simp
  have k: "\<not> re_search TITLE_NOISE ''Keep (This)''" by code_simp
  from clean_title_removes_only_noise[of "''Song (Official Video) live [x]''"] r s
  have "erases noise_annotation ''Song (Official Video) live [x]'' ''Song live [x]''"
    "cleaned ''Song (Official Video) live [x]'' = ''Song live [x]''"
    by simp_all
  moreover from clean_title_removes_only_noise[of "''Keep (This)''"] k
  have "re_sub TITLE_NOISE [] ''Keep (This)'' = ''Keep (This)''" by blast
  ultimately show ?thesis using k by blast
qed

text \<open>
  C4, as stated, fails at the empty title: the fallback returns the raw title, and the raw title
  itself can be empty.
\<close>

theorem clean_title_empty_input:
  "clean_title [] = []"
  by code_simp

text \<open>
  C4, amended: for every raw title, if the cleaned and trimmed result is empty then
  \<open>clean_title\<close> returns the raw title unchanged, so \<open>clean_title\<close> produces an empty title
  only for the empty raw title.
\<close>

theorem clean_title_empty_fallback:
  "(cleaned raw = [] \<longrightarrow> clean_title raw = raw) \<and> (raw \<noteq> [] \<longrightarrow> clean_title raw \<noteq> [])"
  by (simp add: clean_title_def)

theorem clean_title_empty_fallback_witness:
  "cleaned ''(HD)'' = [] \<and> clean_title ''(HD)'' = ''(HD)'' \<and> clean_title ''(HD)'' \<noteq> []"
proof -
  have c: "cleaned ''(HD)'' = []" by code_simp
  from clean_title_empty_fallback[of "''(HD)''"] c show ?thesis by simp
qed

section \<open>File-name sanitising: the claims\<close>

text \<open>
  C5, as stated, fails on the trailing whitespace: the name is trimmed before it is cut to 200
  characters, and the cut can end on the single space between two words.
\<close>

theorem sanitize_filename_trailing_space:
  "sanitize_filename (replicate 199 CHR ''a'' @ '' b'') = replicate 199 CHR ''a'' @ '' '' \<and>
   isspace (last (sanitize_filename (replicate 199 CHR ''a'' @ '' b'')))"
  by code_simp

text \<open>
  C5, amended: for every input string, the output of \<open>sanitize_filename\<close> contains none of the
  characters \<open>< > : " / \ | ? *\<close>, contains no two consecutive whitespace characters, has no
  leading whitespace, has length at most 200, and has no trailing whitespace whenever the
  trimmed name was not cut (it had at most 200 characters).
\<close>

theorem sanitize_filename_safe:
  "(\<forall>c\<in>set (sanitize_filename s). c \<notin> set illegal_chars) \<and>
   no_ws_pair (sanitize_filename s) \<and>
   length (sanitize_filename s) \<le> 200 \<and>
   (sanitize_filename s \<noteq> [] \<longrightarrow> \<not> isspace (hd (sanitize_filename s))) \<and>
   (sanitize_filename s \<noteq> [] \<longrightarrow> length (squeezed s) \<le> 200 \<longrightarrow>
      \<not> isspace (last (sanitize_filename s)))"
proof (intro conjI impI)
  show "\<forall>c\<in>set (sanitize_filename s). c \<notin> set illegal_chars"
    using set_squeezed[of s] space_legal set_take_subset[of 200 "squeezed s"]
    unfolding sanitize_filename_def by blast
  show "no_ws_pair (sanitize_filename s)"
    unfolding sanitize_filename_def by (intro no_ws_pair_take no_ws_pair_squeezed)
  show "length (sanitize_filename s) \<le> 200"
    unfolding sanitize_filename_def by simp
next
  assume ne: "sanitize_filename s \<noteq> []"
  then have "squeezed s \<noteq> []" unfolding sanitize_filename_def by auto
  then have "\<not> isspace (hd (squeezed s))"
    using strip_hd[of "re_sub (Spaces 1) '' '' (re_sub (Set illegal_chars) [] s)"]
    unfolding squeezed_def by blast
  then show "\<not> isspace (hd (sanitize_filename s))"
    unfolding sanitize_filename_def by simp
next
  assume ne: "sanitize_filename s \<noteq> []" and le: "length (squeezed s) \<le> 200"
  then have eq: "sanitize_filename s = squeezed s" unfolding sanitize_filename_def by simp
  with ne have "\<not> isspace (last (squeezed s))"
    using strip_last[of "re_sub (Spaces 1) '' '' (re_sub (Set illegal_chars) [] s)"]
    unfolding squeezed_def by auto
  with eq show "\<not> isspace (last (sanitize_filename s))" by simp
qed

theorem sanitize_filename_safe_witness:
  "sanitize_filename ''  a<b>  c:d?  '' = ''ab cd'' \<and>
   CHR ''<'' \<notin> set (sanitize_filename ''  a<b>  c:d?  '') \<and>
   no_ws_pair (sanitize_filename ''  a<b>  c:d?  '') \<and>
   length (sanitize_filename ''  a<b>  c:d?  '') \<le> 200 \<and>
   \<not> isspace (hd (sanitize_filename ''  a<b>  c:d?  '')) \<and>
   \<not> isspace (last (sanitize_filename ''  a<b>  c:d?  ''))"
proof -
  have v: "sanitize_filename ''  a<b>  c:d?  '' = ''ab cd''" by code_simp
  have q: "squeezed ''  a<b>  c:d?  '' = ''ab cd''" by code_simp
  have i: "CHR ''<'' \<in> set illegal_chars" by (simp add: illegal_chars_def)
  from sanitize_filename_safe[of "''  a<b>  c:d?  ''"] v q i show ?thesis by auto
qed

section \<open>Album artist: the claim\<close>

text \<open>
  C1: for every non-empty list of per-track metadata records, with no artist override, the
  album artist is the single resolved per-track artist when the set of resolved artists over
  all tracks has exactly one member, and the sentinel \<open>Various Artists\<close> when it has more than
  one.
\<close>

theorem album_artist_reconciliation:
  "infos \<noteq> [] \<Longrightarrow>
     (set (map get_artist infos) = {a} \<longrightarrow>
        override_or None (determine_album_artist infos) = a) \<and>
     (1 < card (set (map get_artist infos)) \<longrightarrow>
        override_or None (determine_album_artist infos) = JStr ''Various Artists'')"
proof (intro conjI impI)
  let ?a = "fold (\<lambda>info acc. List.insert (get_artist info) acc) infos []"
  assume one: "set (map get_artist infos) = {a}"
  then have len: "length ?a = 1" by (simp add: artists_card)
  have "set ?a = {a}" using one by (simp add: fold_insert_set)
  with len have "hd ?a = a" by (cases ?a) auto
  with len show "override_or None (determine_album_artist infos) = a"
    by (simp add: override_or_def determine_album_artist_def)
next
  let ?a = "fold (\<lambda>info acc. List.insert (get_artist info) acc) infos []"
  assume "1 < card (set (map get_artist infos))"
  then have "length ?a \<noteq> 1" by (simp add: artists_card)
  then show "override_or None (determine_album_artist infos) = JStr ''Various Artists''"
    by (simp add: override_or_def determine_album_artist_def)
qed

theorem album_artist_reconciliation_witness:
  "override_or None (determine_album_artist
      [[''artist'' \<mapsto> JStr ''A''], [''artist'' \<mapsto> JNull, ''uploader'' \<mapsto> JStr ''A'']]) = JStr ''A'' \<and>
   override_or None (determine_album_artist
      [[''artist'' \<mapsto> JStr ''A''], [''artist'' \<mapsto> JStr ''A''], [''creator'' \<mapsto> JStr ''B'']]) =
     JStr ''Various Artists''"
proof -
  let ?one = "[[''artist'' \<mapsto> JStr ''A''], [''artist'' \<mapsto> JNull, ''uploader'' \<mapsto> JStr ''A'']]"
  let ?two = "[[''artist'' \<mapsto> JStr ''A''], [''artist'' \<mapsto> JStr ''A''],
               [''creator'' \<mapsto> JStr ''B'']] :: info list"
  have s1: "set (map get_artist ?one) = {JStr ''A''}" by (simp add: get_artist_def)
  have s2: "set (map get_artist ?two) = {JStr ''A'', JStr ''B''}"
    by (auto simp: get_artist_def)
  have c2: "1 < card (set (map get_artist ?two))" unfolding s2 by simp
  from album_artist_reconciliation[of ?one "JStr ''A''"] s1
  have "override_or None (determine_album_artist ?one) = JStr ''A''" by blast
  moreover from album_artist_reconciliation[of ?two] c2
  have "override_or None (determine_album_artist ?two) = JStr ''Various Artists''" by blast
  ultimately show ?thesis by blast
qed

section \<open>The organize step: the claims\<close>

text \<open>
  C6, as the specification states it, does not hold of every sequence of pairs: the third loop
  stops with an exception when the file system refuses a destination. A title of 130 letters
  U+00E9 passes \<open>sanitize_filename\<close>, which cuts at 200 characters, and gives a destination name
  of 270 bytes, more than the 255 a name may have: the track is tagged with its number, the move
  raises \<open>OSError\<close>, the file stays in the staging area and no log is written. The run stops as
  well, before the loop, when a component of the album directory is a regular file (here the
  staged audio file itself) and when the album name has the character U+0000.
\<close>

theorem track_numbering_stops_on_refused_name:
  "staging_ok solo_result (solo_staging (replicate 130 (CHR 0xE9))) \<and>
   length (sanitize_filename (clean_title (replicate 130 (CHR 0xE9)))) = 130 \<and>
   utf8_len (dest_name 1 (replicate 130 (CHR 0xE9))) = 270 \<and>
   fst (move_and_tag solo_result [''home'', ''Music''] None None ''2026''
          (solo_staging (replicate 130 (CHR 0xE9)))) = Inl OSError \<and>
   is_file (snd (move_and_tag solo_result [''home'', ''Music''] None None ''2026''
                   (solo_staging (replicate 130 (CHR 0xE9)))))
     [''tmp'', ''yt'', ''001 - A.opus''] \<and>
   \<not> is_file (snd (move_and_tag solo_result [''home'', ''Music''] None None ''2026''
                     (solo_staging (replicate 130 (CHR 0xE9)))))
       [''home'', ''Music'', ''Unknown Artist'', ''Road Mix'', ''download_log.json''] \<and>
   staging_ok solo_result (solo_staging ''A'') \<and>
   fst (move_and_tag solo_result [''home'', ''Music''] None None ''2026'' (solo_staging ''A'')) =
     Inr [''home'', ''Music'', ''Unknown Artist'', ''Road Mix''] \<and>
   fst (move_and_tag solo_result [''tmp'', ''yt'', ''001 - A.opus''] None None ''2026''
          (solo_staging ''A'')) = Inl OSError \<and>
   fst (move_and_tag (solo_result\<lparr>playlist_info := example_playlist\<lparr>title := [CHR ''A'', CHR 0x00]\<rparr>\<rparr>)
          [''home'', ''Music''] None None ''2026'' (solo_staging ''A'')) = Inl ValueError"
proof -
  have "length (sanitize_filename (clean_title (replicate 130 (CHR 0xE9)))) = 130" by code_simp
  moreover have "utf8_len (dest_name 1 (replicate 130 (CHR 0xE9))) = 270" by code_simp
  moreover have "fst (move_and_tag solo_result [''home'', ''Music''] None None ''2026''
          (solo_staging (replicate 130 (CHR 0xE9)))) = Inl OSError"
    by code_simp
  moreover have "is_file (snd (move_and_tag solo_result [''home'', ''Music''] None None ''2026''
                   (solo_staging (replicate 130 (CHR 0xE9)))))
     [''tmp'', ''yt'', ''001 - A.opus'']"
    by code_simp
  moreover have "\<not> is_file (snd (move_and_tag solo_result [''home'', ''Music''] None None ''2026''
                     (solo_staging (replicate 130 (CHR 0xE9)))))
       [''home'', ''Music'', ''Unknown Artist'', ''Road Mix'', ''download_log.json'']"
    by code_simp
  moreover have "fst (move_and_tag solo_result [''home'', ''Music''] None None ''2026''
      (solo_staging ''A'')) = Inr [''home'', ''Music'', ''Unknown Artist'', ''Road Mix'']"
    by code_simp
  moreover have "fst (move_and_tag solo_result [''tmp'', ''yt'', ''001 - A.opus''] None None ''2026''
          (solo_staging ''A'')) = Inl OSError"
    by code_simp
  moreover have "fst (move_and_tag
          (solo_result\<lparr>playlist_info := example_playlist\<lparr>title := [CHR ''A'', CHR 0x00]\<rparr>\<rparr>)
          [''home'', ''Music''] None None ''2026'' (solo_staging ''A'')) = Inl ValueError"
    by code_simp
  ultimately show ?thesis using solo_staging_ok by simp
qed

text \<open>
  C6, amended: take a staging area as the fetch stage leaves it, with \<open>N > 0\<close> audio files, such
  that the file system accepts the album directory and the destination names, and no staged
  file lies at a destination or where the log goes. Then \<open>move_and_tag\<close> returns the album
  directory and writes a log whose \<open>N\<close> tracks are numbered \<open>1..N\<close> with no gap, in the order of
  the audio files (which \<open>download_playlist\<close> lists sorted), whatever indices the file names
  carry; the file name of track \<open>j\<close> is the \<open>{j:02d}\<close> form of its number (two digits below 100),
  a dash between spaces, the sanitized cleaned title and \<open>.opus\<close>; after the run the audio file
  is no longer in the staging area but under that name in the album directory, tagged with the
  track number \<open>j\<close> and the track total \<open>N\<close>.
\<close>

theorem track_numbers_contiguous:
  assumes "staging_ok result s" and "downloaded_files result \<noteq> []"
    and "\<forall>info_map a.
           load_infos s (info_json_files result) Map.empty = Inr info_map \<longrightarrow>
           override_or ov (determine_album_artist
              (map snd (pair_up info_map (downloaded_files result)))) = JStr a \<longrightarrow>
           fs_accepts s (album_path out a (or_else alb (title (playlist_info result))))
             (planned_names 1 (pair_up info_map (downloaded_files result))) \<and>
           apart (downloaded_files result)
             (album_path out a (or_else alb (title (playlist_info result))))
             (planned_names 1 (pair_up info_map (downloaded_files result)))"
  shows "\<exists>info_map a album_dir s' log.
     load_infos s (info_json_files result) Map.empty = Inr info_map \<and>
     override_or ov (determine_album_artist
        (map snd (pair_up info_map (downloaded_files result)))) = JStr a \<and>
     album_dir = album_path out a (or_else alb (title (playlist_info result))) \<and>
     move_and_tag result out alb ov now s = (Inr album_dir, s') \<and>
     log_at s' (joinpath album_dir ''download_log.json'') = Some log \<and>
     length (tracks log) = length (downloaded_files result) \<and>
     (\<forall>j<length (downloaded_files result).
        track_number (tracks log ! j) = Suc j \<and>
        filename (tracks log ! j) =
          fmt_02d (Suc j) @ '' - '' @
          sanitize_filename (clean_title
            (raw_title (snd (pair_up info_map (downloaded_files result) ! j))
               (downloaded_files result ! j))) @ ''.opus'' \<and>
        (Suc j < 100 \<longrightarrow>
           fmt_02d (Suc j) = [digit_char (Suc j div 10), digit_char (Suc j mod 10)]) \<and>
        files s' (downloaded_files result ! j) = None \<and>
        (\<exists>tags.
           files s' (joinpath album_dir (filename (tracks log ! j))) = Some (Audio tags) \<and>
           tags ''tracknumber'' = Some [JStr (str_nat (Suc j))] \<and>
           tags ''tracktotal'' = Some [JStr (str_nat (length (downloaded_files result)))])) \<and>
     sorted (downloaded_files (download_playlist pinfo temp_dir run))"
proof -
  from assms(1) obtain info_map where
    lm: "load_infos s (info_json_files result) Map.empty = Inr info_map"
    and wt: "\<forall>k i. info_map k = Some i \<longrightarrow> well_typed i"
    using load_infos_ok[of "info_json_files result" s well_typed Map.empty]
    by (auto simp: staging_ok_def)
  define pairs where "pairs = pair_up info_map (downloaded_files result)"
  define n where "n = length (downloaded_files result)"
  have "\<forall>info\<in>set (map snd pairs). well_typed info"
    using pair_up_well_typed[OF wt] by (auto simp: pairs_def)
  then obtain a where a: "override_or ov (determine_album_artist (map snd pairs)) = JStr a"
    using override_or_str[OF determine_album_artist_str] by blast
  define album_dir where
    "album_dir = album_path out a (or_else alb (title (playlist_info result)))"
  from assms(3) lm a have acc: "fs_accepts s album_dir (planned_names 1 pairs)"
    and ap: "apart (downloaded_files result) album_dir (planned_names 1 pairs)"
    unfolding pairs_def album_dir_def by blast+
  define entries where "entries = map (\<lambda>(k, f, info). make_entry k (raw_title info f) info ov)
                        (zip [1 ..< 1 + n] pairs)"
  define log where "log =
       \<lparr>playlist_url = url (playlist_info result),
         playlist_title = title (playlist_info result),
         album = or_else alb (title (playlist_info result)),
         album_artist = JStr a,
         download_date = now,
         tracks = entries,
         log_errors = errors result\<rparr>"
  have tl: "tracks log = entries" by (simp add: log_def)
  from move_and_tag_ok[OF assms(1,2) lm pairs_def a album_dir_def[unfolded album_path_def] acc,
      of now]
  obtain s' where mt: "move_and_tag result out alb ov now s = (Inr album_dir, s')"
    and lg: "log_at s' (joinpath album_dir ''download_log.json'') = Some log"
    and fl: "apart (downloaded_files result) album_dir (planned_names 1 pairs) \<longrightarrow>
        (\<forall>f\<in>set (downloaded_files result). files s' f = None) \<and>
        (\<forall>j<n. \<exists>tags.
           files s' (joinpath album_dir (planned_names 1 pairs ! j)) = Some (Audio tags) \<and>
           tags ''tracknumber'' = Some [JStr (str_nat (Suc j))] \<and>
           tags ''tracktotal'' = Some [JStr (str_nat n)])"
    unfolding log_def entries_def n_def by blast
  note both = mp[OF fl ap]
  note gone = conjunct1[OF both] and there = conjunct2[OF both]
  have fp: "map fst pairs = downloaded_files result" by (simp add: pairs_def pair_up_fst)
  then have lp: "length pairs = n" unfolding n_def by (metis length_map)
  have each: "entries ! j =
      make_entry (Suc j) (raw_title (snd (pairs ! j)) (downloaded_files result ! j))
        (snd (pairs ! j)) ov" if "j < n" for j
    unfolding entries_def pairs_def n_def using that[unfolded n_def] by (rule entries_nth)
  have name: "planned_names 1 pairs ! j = filename (entries ! j)" if j: "j < n" for j
  proof -
    from j have "fst (pairs ! j) = downloaded_files result ! j" using fp lp by (metis nth_map)
    then show ?thesis
      using j lp by (simp add: planned_names_nth each make_entry_def)
  qed
  have per: "track_number (tracks log ! j) = Suc j \<and>
        filename (tracks log ! j) =
          fmt_02d (Suc j) @ '' - '' @
          sanitize_filename (clean_title
            (raw_title (snd (pairs ! j)) (downloaded_files result ! j))) @ ''.opus'' \<and>
        (Suc j < 100 \<longrightarrow>
           fmt_02d (Suc j) = [digit_char (Suc j div 10), digit_char (Suc j mod 10)]) \<and>
        files s' (downloaded_files result ! j) = None \<and>
        (\<exists>tags.
           files s' (joinpath album_dir (filename (tracks log ! j))) = Some (Audio tags) \<and>
           tags ''tracknumber'' = Some [JStr (str_nat (Suc j))] \<and>
           tags ''tracktotal'' = Some [JStr (str_nat n)])" if j: "j < n" for j
  proof (intro conjI)
    show "track_number (tracks log ! j) = Suc j" by (simp add: tl each[OF j] make_entry_def)
    show "filename (tracks log ! j) =
          fmt_02d (Suc j) @ '' - '' @
          sanitize_filename (clean_title
            (raw_title (snd (pairs ! j)) (downloaded_files result ! j))) @ ''.opus''"
      by (simp add: tl each[OF j] make_entry_def dest_name_def)
    show "Suc j < 100 \<longrightarrow>
           fmt_02d (Suc j) = [digit_char (Suc j div 10), digit_char (Suc j mod 10)]"
      by (simp add: fmt_02d_two_digits)
    from j have "downloaded_files result ! j \<in> set (downloaded_files result)"
      unfolding n_def by (rule nth_mem)
    with gone show "files s' (downloaded_files result ! j) = None" by simp
    from there[rule_format, OF j] show "\<exists>tags.
           files s' (joinpath album_dir (filename (tracks log ! j))) = Some (Audio tags) \<and>
           tags ''tracknumber'' = Some [JStr (str_nat (Suc j))] \<and>
           tags ''tracktotal'' = Some [JStr (str_nat n)]"
      unfolding name[OF j] tl .
  qed
  have srt: "sorted (downloaded_files (download_playlist pinfo temp_dir run))"
    by (rule sorted_downloaded_files)
  have "length entries = n" by (simp add: entries_def lp del: upt_Suc)
  then have le: "length (tracks log) = length (downloaded_files result)" unfolding tl n_def .
  show ?thesis
    apply (rule exI[of _ info_map])
    apply (rule exI[of _ a])
    apply (rule exI[of _ album_dir])
    apply (rule exI[of _ s'])
    apply (rule exI[of _ log])
    apply (intro conjI)
           apply (rule lm)
          apply (rule a[unfolded pairs_def])
         apply (rule album_dir_def)
        apply (rule mt)
       apply (rule lg)
      apply (rule le)
     apply (intro allI impI)
     apply (rule per[unfolded n_def pairs_def], assumption)
    apply (rule srt)
    done
qed

theorem track_numbers_contiguous_witness:
  "staging_ok example_result example_staging \<and>
   map path_name (downloaded_files example_result) =
     [''001 - A (Official Video).opus'', ''003 - C.opus'', ''004 - D.opus''] \<and>
   fst (move_and_tag example_result [''home'', ''Music''] None None ''2026'' example_staging) =
     Inr [''home'', ''Music'', ''Various Artists'', ''Road Mix''] \<and>
   map_option (\<lambda>l. (map track_number (tracks l), map filename (tracks l)))
     (log_at (snd (move_and_tag example_result [''home'', ''Music''] None None ''2026''
                     example_staging))
        [''home'', ''Music'', ''Various Artists'', ''Road Mix'', ''download_log.json'']) =
     Some ([1, 2, 3], [''01 - A.opus'', ''02 - 003 - C.opus'', ''03 - D.opus'']) \<and>
   map (\<lambda>n. case files (snd (move_and_tag example_result [''home'', ''Music''] None None ''2026''
                               example_staging))
                  [''home'', ''Music'', ''Various Artists'', ''Road Mix'', n] of
               Some (Audio tags) \<Rightarrow> (tags ''tracknumber'', tags ''tracktotal'')
             | _ \<Rightarrow> (None, None))
     [''01 - A.opus'', ''02 - 003 - C.opus'', ''03 - D.opus''] =
     [(Some [JStr ''1''], Some [JStr ''3'']), (Some [JStr ''2''], Some [JStr ''3'']),
      (Some [JStr ''3''], Some [JStr ''3''])] \<and>
   map (is_file (snd (move_and_tag example_result [''home'', ''Music''] None None ''2026''
                        example_staging)))
     (downloaded_files example_result) = [False, False, False]"
proof -
  have ne: "downloaded_files example_result \<noteq> []" by (simp add: example_downloaded)
  have acc: "\<forall>info_map a.
      load_infos example_staging (info_json_files example_result) Map.empty = Inr info_map \<longrightarrow>
      override_or None (determine_album_artist
         (map snd (pair_up info_map (downloaded_files example_result)))) = JStr a \<longrightarrow>
      fs_accepts example_staging
        (album_path [''home'', ''Music''] a (or_else None (title (playlist_info example_result))))
        (planned_names 1 (pair_up info_map (downloaded_files example_result))) \<and>
      apart (downloaded_files example_result)
        (album_path [''home'', ''Music''] a (or_else None (title (playlist_info example_result))))
        (planned_names 1 (pair_up info_map (downloaded_files example_result)))"
    using example_accepted by blast
  have names: "map path_name (downloaded_files example_result) =
     [''001 - A (Official Video).opus'', ''003 - C.opus'', ''004 - D.opus'']"
    by code_simp
  have dir: "fst (move_and_tag example_result [''home'', ''Music''] None None ''2026''
      example_staging) = Inr [''home'', ''Music'', ''Various Artists'', ''Road Mix'']"
    by code_simp
  have log: "map_option (\<lambda>l. (map track_number (tracks l), map filename (tracks l)))
     (log_at (snd (move_and_tag example_result [''home'', ''Music''] None None ''2026''
                     example_staging))
        [''home'', ''Music'', ''Various Artists'', ''Road Mix'', ''download_log.json'']) =
     Some ([1, 2, 3], [''01 - A.opus'', ''02 - 003 - C.opus'', ''03 - D.opus''])"
    by code_simp
  have tags: "map (\<lambda>n. case files (snd (move_and_tag example_result [''home'', ''Music''] None None
                               ''2026'' example_staging))
                  [''home'', ''Music'', ''Various Artists'', ''Road Mix'', n] of
               Some (Audio tags) \<Rightarrow> (tags ''tracknumber'', tags ''tracktotal'')
             | _ \<Rightarrow> (None, None))
     [''01 - A.opus'', ''02 - 003 - C.opus'', ''03 - D.opus''] =
     [(Some [JStr ''1''], Some [JStr ''3'']), (Some [JStr ''2''], Some [JStr ''3'']),
      (Some [JStr ''3''], Some [JStr ''3''])]"
    by code_simp
  have gone: "map (is_file (snd (move_and_tag example_result [''home'', ''Music''] None None
      ''2026'' example_staging))) (downloaded_files example_result) = [False, False, False]"
    by code_simp
  from track_numbers_contiguous[OF example_staging_ok ne acc] example_staging_ok names dir log
    tags gone
  show ?thesis by simp
qed

text \<open>
  C7, as the specification states it, does not hold of every audio file without a sidecar: the
  run goes on past the pairing, but the title taken from the stem can make the move fail. A
  staged file named \<open>001 - \<close>, 122 letters U+00E9 and \<open>.opus\<close> has a name of 255 bytes, which the
  file system accepts. Without a sidecar its title is its stem, its destination name has 260
  bytes, and the run stops with \<open>OSError\<close> and writes no log. (With the title of 122 letters
  from a sidecar the destination name would have 254 bytes.)
\<close>

theorem missing_sidecar_stops_on_long_stem:
  "staging_ok bare_result bare_staging \<and>
   downloaded_files bare_result = [[''tmp'', ''yt'', long_stem @ ''.opus'']] \<and>
   info_json_files bare_result = [] \<and>
   utf8_len (long_stem @ ''.opus'') = 255 \<and>
   title_field Map.empty [''tmp'', ''yt'', long_stem @ ''.opus''] = JStr long_stem \<and>
   utf8_len (dest_name 1 long_stem) = 260 \<and>
   utf8_len (dest_name 1 (replicate 122 (CHR 0xE9))) = 254 \<and>
   fst (move_and_tag bare_result [''home'', ''Music''] None None ''2026'' bare_staging) =
     Inl OSError \<and>
   \<not> is_file (snd (move_and_tag bare_result [''home'', ''Music''] None None ''2026''
                     bare_staging))
       [''home'', ''Music'', ''Unknown Artist'', ''Road Mix'', ''download_log.json'']"
proof -
  have "downloaded_files bare_result = [[''tmp'', ''yt'', long_stem @ ''.opus'']]"
    unfolding long_stem_def by code_simp
  moreover have "info_json_files bare_result = []" by code_simp
  moreover have "utf8_len (long_stem @ ''.opus'') = 255" by code_simp
  moreover have "title_field Map.empty [''tmp'', ''yt'', long_stem @ ''.opus''] = JStr long_stem"
    by code_simp
  moreover have "utf8_len (dest_name 1 long_stem) = 260" by code_simp
  moreover have "utf8_len (dest_name 1 (replicate 122 (CHR 0xE9))) = 254" by code_simp
  moreover have "fst (move_and_tag bare_result [''home'', ''Music''] None None ''2026''
      bare_staging) = Inl OSError"
    by code_simp
  moreover have "\<not> is_file (snd (move_and_tag bare_result [''home'', ''Music''] None None ''2026''
                     bare_staging))
       [''home'', ''Music'', ''Unknown Artist'', ''Road Mix'', ''download_log.json'']"
    by code_simp
  ultimately show ?thesis using bare_staging_ok by simp
qed

text \<open>
  C7, amended: an audio file whose sidecar is absent is paired with the empty record: its raw
  title is its file-name stem (cleaned like every title), its artist is the sentinel
  \<open>Unknown Artist\<close>, and every other audio file is still paired with the content of its own
  sidecar. When the file system accepts the album directory and the destination names, that
  of this file built from its stem, \<open>move_and_tag\<close> returns the album directory and writes the
  log, with that title and that artist in the entry of the file.
\<close>

theorem missing_sidecar_tolerated:
  assumes "staging_ok result s"
    and "f \<in> set (downloaded_files result)"
    and "path_stem f \<notin> sidecar_key ` set (info_json_files result)"
    and "distinct (map sidecar_key (info_json_files result))"
    and "\<forall>info_map a.
           load_infos s (info_json_files result) Map.empty = Inr info_map \<longrightarrow>
           override_or None (determine_album_artist
              (map snd (pair_up info_map (downloaded_files result)))) = JStr a \<longrightarrow>
           fs_accepts s (album_path out a (or_else alb (title (playlist_info result))))
             (planned_names 1 (pair_up info_map (downloaded_files result)))"
  shows "\<exists>info_map album_dir s' log.
     load_infos s (info_json_files result) Map.empty = Inr info_map \<and>
     (f, Map.empty) \<in> set (pair_up info_map (downloaded_files result)) \<and>
     title_field Map.empty f = JStr (path_stem f) \<and>
     (\<forall>g p i. g \<in> set (downloaded_files result) \<longrightarrow> p \<in> set (info_json_files result) \<longrightarrow>
        sidecar_key p = path_stem g \<longrightarrow> files s p = Some (InfoJson i) \<longrightarrow>
        (g, i) \<in> set (pair_up info_map (downloaded_files result))) \<and>
     move_and_tag result out alb None now s = (Inr album_dir, s') \<and>
     log_at s' (joinpath album_dir ''download_log.json'') = Some log \<and>
     length (tracks log) = length (downloaded_files result) \<and>
     (\<forall>j<length (downloaded_files result). downloaded_files result ! j = f \<longrightarrow>
        entry_title (tracks log ! j) = clean_title (path_stem f) \<and>
        entry_artist (tracks log ! j) = JStr ''Unknown Artist'' \<and>
        filename (tracks log ! j) =
          fmt_02d (Suc j) @ '' - '' @ sanitize_filename (clean_title (path_stem f)) @ ''.opus'')"
proof -
  from assms(2) have ne: "downloaded_files result \<noteq> []" by auto
  from assms(1) obtain info_map where
    lm: "load_infos s (info_json_files result) Map.empty = Inr info_map"
    and wt: "\<forall>k i. info_map k = Some i \<longrightarrow> well_typed i"
    using load_infos_ok[of "info_json_files result" s well_typed Map.empty]
    by (auto simp: staging_ok_def)
  define fs where "fs = downloaded_files result"
  define pairs where "pairs = pair_up info_map (downloaded_files result)"
  have pairs_fs: "pairs = pair_up info_map fs" by (simp add: pairs_def fs_def)
  have "\<forall>info\<in>set (map snd pairs). well_typed info"
    using pair_up_well_typed[OF wt] by (auto simp: pairs_def)
  then obtain a where a: "override_or None (determine_album_artist (map snd pairs)) = JStr a"
    using override_or_str[OF determine_album_artist_str] by blast
  define album_dir where
    "album_dir = album_path out a (or_else alb (title (playlist_info result)))"
  from assms(5) lm a have acc: "fs_accepts s album_dir (planned_names 1 pairs)"
    unfolding pairs_def album_dir_def by blast
  define entries where "entries = map (\<lambda>(k, f, info). make_entry k (raw_title info f) info None)
                        (zip [1 ..< 1 + length fs] pairs)"
  define log where "log =
       \<lparr>playlist_url = url (playlist_info result),
         playlist_title = title (playlist_info result),
         album = or_else alb (title (playlist_info result)),
         album_artist = JStr a,
         download_date = now,
         tracks = entries,
         log_errors = errors result\<rparr>"
  have tl: "tracks log = entries" by (simp add: log_def)
  from move_and_tag_ok[OF assms(1) ne lm pairs_def a album_dir_def[unfolded album_path_def] acc,
      of now]
  obtain s' where mt: "move_and_tag result out alb None now s = (Inr album_dir, s')"
    and lg: "log_at s' (joinpath album_dir ''download_log.json'') = Some log"
    unfolding log_def entries_def fs_def by blast
  have none: "info_map (path_stem f) = None"
    using load_infos_other[OF lm assms(3)] by simp
  have paired: "(f, Map.empty) \<in> set (pair_up info_map fs)"
    using assms(2) none by (force simp: pair_up_def fs_def)
  have fallback: "title_field Map.empty f = JStr (path_stem f)"
    by (simp add: title_field_def)
  have others: "\<forall>g p i. g \<in> set fs \<longrightarrow> p \<in> set (info_json_files result) \<longrightarrow>
        sidecar_key p = path_stem g \<longrightarrow> files s p = Some (InfoJson i) \<longrightarrow>
        (g, i) \<in> set (pair_up info_map fs)"
  proof (intro allI impI)
    fix g p i
    assume g: "g \<in> set fs" and p: "p \<in> set (info_json_files result)"
      and k: "sidecar_key p = path_stem g" and i: "files s p = Some (InfoJson i)"
    have "info_map (path_stem g) = Some i"
      using load_infos_key[OF lm assms(4) p i] k by simp
    with g show "(g, i) \<in> set (pair_up info_map fs)" by (force simp: pair_up_def)
  qed
  have "length entries = length fs" by (simp add: entries_def pairs_fs pair_up_def del: upt_Suc)
  then have le: "length (tracks log) = length fs" unfolding tl .
  have mine: "\<forall>j<length fs. fs ! j = f \<longrightarrow>
        entry_title (tracks log ! j) = clean_title (path_stem f) \<and>
        entry_artist (tracks log ! j) = JStr ''Unknown Artist'' \<and>
        filename (tracks log ! j) =
          fmt_02d (Suc j) @ '' - '' @ sanitize_filename (clean_title (path_stem f)) @ ''.opus''"
  proof (intro allI impI)
    fix j assume j: "j < length fs" and fj: "fs ! j = f"
    have pj: "pair_up info_map fs ! j = (f, Map.empty)"
      using j fj none by (simp add: pair_up_nth)
    have "entries ! j = make_entry (Suc j) (raw_title Map.empty f) Map.empty None"
      unfolding entries_def pairs_fs entries_nth[OF j] pj fj by simp
    then show "entry_title (tracks log ! j) = clean_title (path_stem f) \<and>
        entry_artist (tracks log ! j) = JStr ''Unknown Artist'' \<and>
        filename (tracks log ! j) =
          fmt_02d (Suc j) @ '' - '' @ sanitize_filename (clean_title (path_stem f)) @ ''.opus''"
      unfolding tl
      by (simp add: make_entry_def raw_title_def title_field_def override_or_def get_artist_def
            dest_name_def)
  qed
  show ?thesis
    apply (rule exI[of _ info_map])
    apply (rule exI[of _ album_dir])
    apply (rule exI[of _ s'])
    apply (rule exI[of _ log])
    apply (intro conjI)
           apply (rule lm)
          apply (rule paired[unfolded fs_def])
         apply (rule fallback)
        apply (rule others[unfolded fs_def])
       apply (rule mt)
      apply (rule lg)
     apply (rule le[unfolded fs_def])
    apply (rule mine[unfolded fs_def])
    done
qed

theorem missing_sidecar_tolerated_witness:
  "staging_ok example_result example_staging \<and>
   [''tmp'', ''yt'', ''003 - C.opus''] \<in> set (downloaded_files example_result) \<and>
   map sidecar_key (info_json_files example_result) = [''001 - A (Official Video)'', ''004 - D''] \<and>
   path_stem [''tmp'', ''yt'', ''003 - C.opus''] = ''003 - C'' \<and>
   fst (move_and_tag example_result [''home'', ''Music''] None None ''2026'' example_staging) =
     Inr [''home'', ''Music'', ''Various Artists'', ''Road Mix''] \<and>
   map_option (\<lambda>l. (map entry_title (tracks l), map entry_artist (tracks l)))
     (log_at (snd (move_and_tag example_result [''home'', ''Music''] None None ''2026''
                     example_staging))
        [''home'', ''Music'', ''Various Artists'', ''Road Mix'', ''download_log.json'']) =
     Some ([''A'', ''003 - C'', ''D''], [JStr ''Band'', JStr ''Unknown Artist'', JStr ''Band''])"
proof -
  have f: "[''tmp'', ''yt'', ''003 - C.opus''] \<in> set (downloaded_files example_result)"
    by (simp add: example_downloaded)
  have keys: "map sidecar_key (info_json_files example_result) =
      [''001 - A (Official Video)'', ''004 - D'']"
    by code_simp
  have stem: "path_stem [''tmp'', ''yt'', ''003 - C.opus''] = ''003 - C''" by code_simp
  have absent: "path_stem [''tmp'', ''yt'', ''003 - C.opus''] \<notin>
      sidecar_key ` set (info_json_files example_result)"
    unfolding stem set_map[symmetric] keys by simp
  have d: "distinct (map sidecar_key (info_json_files example_result))"
    unfolding keys by simp
  have acc: "\<forall>info_map a.
      load_infos example_staging (info_json_files example_result) Map.empty = Inr info_map \<longrightarrow>
      override_or None (determine_album_artist
         (map snd (pair_up info_map (downloaded_files example_result)))) = JStr a \<longrightarrow>
      fs_accepts example_staging
        (album_path [''home'', ''Music''] a (or_else None (title (playlist_info example_result))))
        (planned_names 1 (pair_up info_map (downloaded_files example_result)))"
    using example_accepted(1) by blast
  have dir: "fst (move_and_tag example_result [''home'', ''Music''] None None ''2026''
      example_staging) = Inr [''home'', ''Music'', ''Various Artists'', ''Road Mix'']"
    by code_simp
  have log: "map_option (\<lambda>l. (map entry_title (tracks l), map entry_artist (tracks l)))
     (log_at (snd (move_and_tag example_result [''home'', ''Music''] None None ''2026''
                     example_staging))
        [''home'', ''Music'', ''Various Artists'', ''Road Mix'', ''download_log.json'']) =
     Some ([''A'', ''003 - C'', ''D''], [JStr ''Band'', JStr ''Unknown Artist'', JStr ''Band''])"
    by code_simp
  from missing_sidecar_tolerated[OF example_staging_ok f absent d acc]
    example_staging_ok f keys stem dir log
  show ?thesis by simp
qed

text \<open>
  C8: when no audio file was fetched, \<open>main\<close> ends with \<open>sys.exit(1)\<close> and leaves the file
  system as it was, so no album directory is created; \<open>move_and_tag\<close>, called on such a
  result, also stops before it creates a directory, with \<open>sys.exit(1)\<close> when the listed
  sidecars can be read.
\<close>

theorem no_tracks_no_directory:
  "downloaded_files result = [] \<Longrightarrow>
     main result out alb ov now s = (Inl (SystemExit 1), s) \<and>
     (\<exists>e. move_and_tag result out alb ov now s = (Inl e, s)) \<and>
     ((\<forall>p\<in>set (info_json_files result). \<exists>i. files s p = Some (InfoJson i)) \<longrightarrow>
        move_and_tag result out alb ov now s = (Inl (SystemExit 1), s))"
proof (intro conjI impI)
  assume e: "downloaded_files result = []"
  then show "main result out alb ov now s = (Inl (SystemExit 1), s)" by (simp add: main_def)
  show "\<exists>e. move_and_tag result out alb ov now s = (Inl e, s)"
    using e by (cases "load_infos s (info_json_files result) Map.empty")
      (simp_all add: move_and_tag_def pair_up_def)
next
  assume e: "downloaded_files result = []"
    and r: "\<forall>p\<in>set (info_json_files result). \<exists>i. files s p = Some (InfoJson i)"
  from r obtain m where "load_infos s (info_json_files result) Map.empty = Inr m"
    using load_infos_ok[of "info_json_files result" s "\<lambda>i. True" Map.empty] by auto
  with e show "move_and_tag result out alb ov now s = (Inl (SystemExit 1), s)"
    by (simp add: move_and_tag_def pair_up_def)
qed

theorem no_tracks_no_directory_witness:
  "downloaded_files (download_playlist example_playlist [''tmp'', ''yt''] example_empty_run) = [] \<and>
   main (download_playlist example_playlist [''tmp'', ''yt''] example_empty_run)
     [''home'', ''Music''] None None ''2026'' example_staging =
     (Inl (SystemExit 1), example_staging) \<and>
   dirs (snd (main (download_playlist example_playlist [''tmp'', ''yt''] example_empty_run)
     [''home'', ''Music''] None None ''2026'' example_staging)) = {[''tmp''], [''tmp'', ''yt'']}"
proof -
  have e: "downloaded_files (download_playlist example_playlist [''tmp'', ''yt'']
      example_empty_run) = []"
    by code_simp
  from no_tracks_no_directory[OF e, of "[''home'', ''Music'']" None None "''2026''"
      example_staging] e
  show ?thesis by (simp add: example_staging_def)
qed

section \<open>Fetch failures: the claim\<close>

text \<open>
  C9 does not hold of the code: \<open>download_playlist\<close> never adds to the \<open>errors\<close> of its result,
  whatever the downloader reported, so the \<open>errors\<close> of the written log is empty also when an
  entry failed. Here the second entry of the playlist was reported as unavailable.
\<close>

theorem fetch_failures_not_recorded:
  "errors (download_playlist pinfo temp_dir run) = [] \<and>
   failures example_run = [''ERROR: [youtube] b2: Video unavailable''] \<and>
   errors example_result = [] \<and>
   map_option log_errors
     (log_at (snd (main example_result [''home'', ''Music''] None None ''2026'' example_staging))
        [''home'', ''Music'', ''Various Artists'', ''Road Mix'', ''download_log.json'']) =
     Some []"
proof -
  have "failures example_run = [''ERROR: [youtube] b2: Video unavailable'']"
    by (simp add: example_run_def)
  moreover have "errors example_result = []"
    by (simp add: example_result_def errors_download_playlist)
  moreover have "map_option log_errors
     (log_at (snd (main example_result [''home'', ''Music''] None None ''2026'' example_staging))
        [''home'', ''Music'', ''Various Artists'', ''Road Mix'', ''download_log.json'']) =
     Some []"
    by code_simp
  ultimately show ?thesis by (simp add: errors_download_playlist)
qed

section \<open>Playlist URL normalization: the claim\<close>

text \<open>
  C10, as stated, fails: the canonical URL is built from the decoded id, which is not encoded
  again. An id with an escaped \<open>&\<close> gives a URL whose query, parsed once more, ends at the
  \<open>&\<close>, so the second normalization returns another URL.
\<close>

theorem normalize_not_idempotent:
  "normalize_playlist_url lenient (ascii ''https://www.youtube.com/playlist?list=a%26b'') =
     Inr (ascii ''https://www.youtube.com/playlist?list=a&b'') \<and>
   normalize_twice lenient (ascii ''https://www.youtube.com/playlist?list=a%26b'') =
     Inr (ascii ''https://www.youtube.com/playlist?list=a'')"
  by code_simp

text \<open>
  C10, amended: a URL whose query has no \<open>list\<close> parameter is returned unchanged, and a URL
  with a non-empty \<open>list\<close> value maps to the canonical playlist URL of the decoded value; the
  canonical URL is a fixed point whenever the decoded id is free of \<open>#\<close>, \<open>&\<close>, \<open>%\<close>, \<open>+\<close>, tab,
  line feed and carriage return, and for every URL whose id (if it has one) is so,
  normalizing twice gives what normalizing once gives.
\<close>

theorem normalize_fixed_points:
  "(list_id lib u = Inr None \<longrightarrow> normalize_playlist_url lib u = Inr u) \<and>
   (list_id lib u = Inr (Some i) \<and> i \<noteq> [] \<longrightarrow> normalize_playlist_url lib u = Inr (canonical i)) \<and>
   (safe_id i \<longrightarrow> normalize_playlist_url lib (canonical i) = Inr (canonical i)) \<and>
   ((\<forall>j. list_id lib u = Inr (Some j) \<longrightarrow> j = [] \<or> safe_id j) \<longrightarrow>
      normalize_twice lib u = normalize_playlist_url lib u)"
proof (intro conjI impI)
  show "normalize_playlist_url lib u = Inr u" if "list_id lib u = Inr None"
    using that by (simp add: normalize_playlist_url_def)
  show "normalize_playlist_url lib u = Inr (canonical i)"
    if "list_id lib u = Inr (Some i) \<and> i \<noteq> []"
    using that by (simp add: normalize_playlist_url_def)
  show fp: "normalize_playlist_url lib (canonical k) = Inr (canonical k)" if "safe_id k" for k
    using that list_id_canonical[OF that, of lib]
    by (simp add: normalize_playlist_url_def safe_id_def)
  show "normalize_twice lib u = normalize_playlist_url lib u"
    if a: "\<forall>j. list_id lib u = Inr (Some j) \<longrightarrow> j = [] \<or> safe_id j"
  proof (cases "list_id lib u")
    case (Inl e)
    then show ?thesis by (simp add: normalize_twice_def normalize_playlist_url_def)
  next
    case (Inr r)
    show ?thesis
    proof (cases r)
      case None
      with Inr have "normalize_playlist_url lib u = Inr u"
        by (simp add: normalize_playlist_url_def)
      then show ?thesis by (simp add: normalize_twice_def)
    next
      case (Some j)
      show ?thesis
      proof (cases "j = []")
        case True
        with Inr Some have "normalize_playlist_url lib u = Inr u"
          by (simp add: normalize_playlist_url_def)
        then show ?thesis by (simp add: normalize_twice_def)
      next
        case False
        with a Inr Some have sj: "safe_id j" by blast
        from False Inr Some have "normalize_playlist_url lib u = Inr (canonical j)"
          by (simp add: normalize_playlist_url_def)
        with fp[OF sj] show ?thesis by (simp add: normalize_twice_def)
      qed
    qed
  qed
qed

theorem normalize_fixed_points_witness:
  "list_id lenient (ascii ''https://www.youtube.com/watch?v=1&list=PLabc_-9'') =
     Inr (Some (ascii ''PLabc_-9'')) \<and>
   safe_id (ascii ''PLabc_-9'') \<and>
   normalize_playlist_url lenient (ascii ''https://www.youtube.com/watch?v=1&list=PLabc_-9'') =
     Inr (canonical (ascii ''PLabc_-9'')) \<and>
   normalize_playlist_url lenient (canonical (ascii ''PLabc_-9'')) =
     Inr (canonical (ascii ''PLabc_-9'')) \<and>
   normalize_twice lenient (ascii ''https://www.youtube.com/watch?v=1&list=PLabc_-9'') =
     Inr (canonical (ascii ''PLabc_-9'')) \<and>
   list_id lenient (ascii ''https://www.youtube.com/watch?v=1'') = Inr None \<and>
   normalize_playlist_url lenient (ascii ''https://www.youtube.com/watch?v=1'') =
     Inr (ascii ''https://www.youtube.com/watch?v=1'')"
proof -
  let ?u = "ascii ''https://www.youtube.com/watch?v=1&list=PLabc_-9''"
  let ?i = "ascii ''PLabc_-9''"
  let ?w = "ascii ''https://www.youtube.com/watch?v=1''"
  have l: "list_id lenient ?u = Inr (Some ?i)" by code_simp
  have s: "safe_id ?i" by code_simp
  have ne: "?i \<noteq> []" by code_simp
  have n: "list_id lenient ?w = Inr None" by code_simp
  have a: "\<forall>j. list_id lenient ?u = Inr (Some j) \<longrightarrow> j = [] \<or> safe_id j"
    using l s by simp
  from normalize_fixed_points[of lenient ?u ?i] l s ne a
  have "normalize_playlist_url lenient ?u = Inr (canonical ?i)"
    "normalize_playlist_url lenient (canonical ?i) = Inr (canonical ?i)"
    "normalize_twice lenient ?u = Inr (canonical ?i)"
    by simp_all
  moreover from normalize_fixed_points[of lenient ?w] n
  have "normalize_playlist_url lenient ?w = Inr ?w" by simp
  ultimately show ?thesis using l s n by simp
qed

end
